theory Spec2Isabelle
  imports Complex_Main "HOL-Library.Log_Nat"
begin

section \<open>Python text: whitespace, strip, startswith, str of an int\<close>

text \<open>
  Text received from the device is modelled after decoding, one \<open>char\<close> per code point
  below 256. \<open>isspace\<close> is Python's \<open>str.isspace\<close> on that range: the characters that
  \<open>str.strip()\<close> removes.
\<close>

definition isspace :: "char \<Rightarrow> bool" where
  "isspace c = (let n = (of_char c :: nat) in
     (9 \<le> n \<and> n \<le> 13) \<or> (28 \<le> n \<and> n \<le> 32) \<or> n = 133 \<or> n = 160)"

definition strip :: "string \<Rightarrow> string" where
  "strip s = rev (dropWhile isspace (rev (dropWhile isspace s)))"

definition startswith :: "string \<Rightarrow> string \<Rightarrow> bool" where
  "startswith s p = (take (length p) s = p)"

text \<open>The exceptions the programs can meet; each one is caught where the source catches it.\<close>

datatype py_error =
  SerialException | UnicodeDecodeError | ZeroDivisionError | OverflowError | ValueError

text \<open>The decimal digits of a natural number, most significant first.\<close>

function digits :: "nat \<Rightarrow> string" where
  "digits n = (if n < 10 then [''0123456789'' ! n]
               else digits (n div 10) @ [''0123456789'' ! (n mod 10)])"
  by pat_completeness auto
termination
  by (relation "measure id") auto

declare digits.simps [simp del]

text \<open>
  \<^verbatim>\<open>str(i)\<close>, as the f-string applies it. CPython (3.11 and later, at its default setting
  \<^verbatim>\<open>sys.int_info.default_max_str_digits = 4300\<close>) raises \<open>ValueError\<close> when the int has more
  than 4300 digits, the sign not counted.
\<close>

definition int_max_str_digits :: nat where
  "int_max_str_digits = 4300"

definition str_fits :: "int \<Rightarrow> bool" where
  "str_fits i = (length (digits (nat \<bar>i\<bar>)) \<le> int_max_str_digits)"

definition str_int :: "int \<Rightarrow> py_error + string" where
  "str_int i =
     (if \<not> str_fits i then Inl ValueError
      else Inr (if i < 0 then CHR ''-'' # digits (nat (- i)) else digits (nat i)))"

text \<open>The wire format of both programs: \<^verbatim>\<open>f"{pin}:{angle}\n"\<close>.\<close>

definition command :: "int \<Rightarrow> int \<Rightarrow> py_error + string" where
  "command pin angle =
     (case str_int pin of
        Inl e \<Rightarrow> Inl e
      | Inr p \<Rightarrow>
          (case str_int angle of
             Inl e \<Rightarrow> Inl e
           | Inr a \<Rightarrow> Inr (p @ '':'' @ a @ [CHR 0x0A])))"

section \<open>The protocol's side: decimal numerals\<close>

text \<open>
  What the serial protocol means by a channel or an angle on the wire, stated without
  the formatter: the text \<open>ds\<close> is the decimal numeral of \<open>n\<close> when it is a non-empty row of
  the characters \<open>0\<close> to \<open>9\<close>, has no leading zero unless it is the one digit, and its
  value, read left to right in base ten, is \<open>n\<close>. A negative integer is a minus sign and
  the numeral of its magnitude.
\<close>

definition is_digit :: "char \<Rightarrow> bool" where
  "is_digit c = (48 \<le> (of_char c :: nat) \<and> (of_char c :: nat) \<le> 57)"

definition digit_value :: "char \<Rightarrow> nat" where
  "digit_value c = of_char c - 48"

definition decimal_value :: "string \<Rightarrow> nat" where
  "decimal_value ds = foldl (\<lambda>a c. 10 * a + digit_value c) 0 ds"

definition decimal_nat :: "nat \<Rightarrow> string \<Rightarrow> bool" where
  "decimal_nat n ds =
     (ds \<noteq> [] \<and> list_all is_digit ds \<and> (length ds = 1 \<or> hd ds \<noteq> CHR ''0'')
      \<and> decimal_value ds = n)"

definition decimal_int :: "int \<Rightarrow> string \<Rightarrow> bool" where
  "decimal_int i t =
     (if i < 0
      then (case t of [] \<Rightarrow> False | c # ds \<Rightarrow> c = CHR ''-'' \<and> decimal_nat (nat (- i)) ds)
      else decimal_nat (nat i) t)"

section \<open>The serial link and the device behind it\<close>

text \<open>
  The \<open>serial.Serial\<close> object. \<open>written\<close> is what the host has put on the wire, one entry
  per accepted \<open>write\<close>; \<open>in_buf\<close> is the input buffer, one entry per line that
  \<open>readline().decode('utf-8')\<close> will return (\<open>Garbled\<close>: the bytes do not decode, the call
  raises). \<open>script\<close> is the environment: for each future \<open>write\<close>, whether it raises
  (\<open>Fault\<close>) or is accepted, and then which lines the device has put into the input
  buffer by the time the host looks (\<open>Reply\<close>). An exhausted script is a silent
  device that accepts every write.
\<close>

datatype incoming = Line string | Garbled

datatype reaction = Fault | Reply "incoming list"

record serial =
  is_open :: bool
  written :: "string list"
  in_buf :: "incoming list"
  script :: "reaction list"

definition serial_write :: "serial \<Rightarrow> string \<Rightarrow> py_error option \<times> serial" where
  "serial_write s bytes =
     (case script s of
        [] \<Rightarrow> (None, s\<lparr>written := written s @ [bytes]\<rparr>)
      | Fault # rest \<Rightarrow> (Some SerialException, s\<lparr>script := rest\<rparr>)
      | Reply ls # rest \<Rightarrow>
          (None, s\<lparr>written := written s @ [bytes], in_buf := in_buf s @ ls, script := rest\<rparr>))"

text \<open>\<open>in_waiting\<close> is only ever compared with 0; the model counts pending lines.\<close>

definition in_waiting :: "serial \<Rightarrow> nat" where
  "in_waiting s = length (in_buf s)"

text \<open>\<^verbatim>\<open>arduino.readline().decode('utf-8')\<close>: an empty buffer times out with the empty text.\<close>

definition serial_readline :: "serial \<Rightarrow> (py_error + string) \<times> serial" where
  "serial_readline s =
     (case in_buf s of
        [] \<Rightarrow> (Inr [], s)
      | Line t # rest \<Rightarrow> (Inr t, s\<lparr>in_buf := rest\<rparr>)
      | Garbled # rest \<Rightarrow> (Inl UnicodeDecodeError, s\<lparr>in_buf := rest\<rparr>))"

section \<open>The process state\<close>

text \<open>
  The module global \<open>arduino\<close> (\<open>None\<close> until a port has been opened) and a trace of what
  the process did besides serial I/O: every call of \<open>send_servo_command\<close> with its
  arguments (\<open>SendPin\<close> in the API server, \<open>SendServo\<close> in the voice loop), every
  \<open>time.sleep\<close> in milliseconds, every diagnostic printed.
\<close>

datatype diag = Connected | NotConnected | UnknownServo string | ServoCommandFailed | SmoothMoveFailed

datatype event = SendPin int int | SendServo string int | Sleep nat | Print diag

record world =
  arduino :: "serial option"
  trace :: "event list"

definition emit :: "event \<Rightarrow> world \<Rightarrow> world" where
  "emit e w = w\<lparr>trace := trace w @ [e]\<rparr>"

definition link_open :: "world \<Rightarrow> bool" where
  "link_open w = (case arduino w of None \<Rightarrow> False | Some s \<Rightarrow> is_open s)"

definition wire :: "world \<Rightarrow> string list" where
  "wire w = (case arduino w of None \<Rightarrow> [] | Some s \<Rightarrow> written s)"

text \<open>What a run from \<open>w\<close> to \<open>w'\<close> appended to the trace.\<close>

definition since :: "world \<Rightarrow> world \<Rightarrow> event list" where
  "since w w' = drop (length (trace w)) (trace w')"

section \<open>pi\_api\_server.py\<close>

definition api_SERVO_PINS :: "(string \<times> int) list" where
  "api_SERVO_PINS = [(''pan'', 2), (''left_arm'', 4), (''right_arm'', 5)]"

definition api_GESTURES :: "(string \<times> (string \<times> int) list) list" where
  "api_GESTURES =
    [(''wave'',
        [(''pan'', 90), (''right_arm'', 70), (''right_arm'', 40),
         (''right_arm'', 70), (''right_arm'', 40), (''right_arm'', 70),
         (''right_arm'', 40), (''left_arm'', 90), (''right_arm'', 90)]),
     (''nod'',
        [(''pan'', 105), (''pan'', 75), (''pan'', 105), (''pan'', 75), (''pan'', 90)]),
     (''shake'',
        [(''pan'', 65), (''pan'', 115), (''pan'', 65), (''pan'', 115), (''pan'', 90)]),
     (''happy'',
        [(''left_arm'', 170), (''right_arm'', 170), (''pan'', 75),
         (''pan'', 105), (''pan'', 75), (''pan'', 105),
         (''left_arm'', 90), (''right_arm'', 90), (''pan'', 90)]),
     (''sad'',
        [(''pan'', 50), (''left_arm'', 60), (''right_arm'', 60),
         (''pan'', 50), (''left_arm'', 90), (''right_arm'', 90), (''pan'', 90)]),
     (''excited'',
        [(''left_arm'', 170), (''right_arm'', 170), (''pan'', 60),
         (''pan'', 120), (''left_arm'', 90), (''right_arm'', 90), (''pan'', 90)]),
     (''curious'',
        [(''pan'', 70), (''left_arm'', 110), (''right_arm'', 110),
         (''pan'', 70), (''left_arm'', 90), (''right_arm'', 90), (''pan'', 90)]),
     (''rest'',
        [(''pan'', 90), (''left_arm'', 90), (''right_arm'', 90)])]"

text \<open>
  \<open>send_servo_command\<close>. The f-string is evaluated inside the \<^verbatim>\<open>try\<close>, before the write: a
  \<open>ValueError\<close> from it is caught like a failed write, and nothing has been written.
\<close>

definition api_send_servo_command :: "int \<Rightarrow> int \<Rightarrow> world \<Rightarrow> bool \<times> world" where
  "api_send_servo_command pin angle w0 =
     (let w = emit (SendPin pin angle) w0 in
      case arduino w of
        None \<Rightarrow> (False, w)
      | Some s \<Rightarrow>
          if \<not> is_open s then (False, w)
          else (case command pin angle of
                  Inl e \<Rightarrow> (False, emit (Print ServoCommandFailed) w)
                | Inr bytes \<Rightarrow>
                    (case serial_write s bytes of
                       (Some e, s') \<Rightarrow>
                         (False, emit (Print ServoCommandFailed) (w\<lparr>arduino := Some s'\<rparr>))
                     | (None, s') \<Rightarrow> (True, emit (Sleep 50) (w\<lparr>arduino := Some s'\<rparr>)))))"

text \<open>The loop of \<open>perform_gesture\<close>; \<^verbatim>\<open>if pin:\<close> skips a missing and a zero pin.\<close>

fun api_play :: "(string \<times> int) list \<Rightarrow> world \<Rightarrow> world" where
  "api_play [] w = w"
| "api_play ((servo, angle) # rest) w =
     (case map_of api_SERVO_PINS servo of
        None \<Rightarrow> api_play rest w
      | Some pin \<Rightarrow>
          if pin = 0 then api_play rest w
          else api_play rest (emit (Sleep 150) (snd (api_send_servo_command pin angle w))))"

definition api_perform_gesture :: "string \<Rightarrow> world \<Rightarrow> bool \<times> world" where
  "api_perform_gesture gesture_name w =
     (case map_of api_GESTURES gesture_name of
        None \<Rightarrow> (False, w)
      | Some sequence \<Rightarrow> (True, api_play sequence w))"

section \<open>voice\_stt\_tts\_fixed.py: the link primitive\<close>

definition voice_SERVO_PINS :: "(string \<times> int) list" where
  "voice_SERVO_PINS = [(''head'', 2), (''pan'', 2), (''left_arm'', 4), (''right_arm'', 5)]"

definition voice_SERVO_REST :: "(string \<times> int) list" where
  "voice_SERVO_REST = [(''head'', 90), (''pan'', 90), (''left_arm'', 90), (''right_arm'', 90)]"

definition voice_send_servo_command :: "string \<Rightarrow> int \<Rightarrow> world \<Rightarrow> bool \<times> world" where
  "voice_send_servo_command servo angle w0 =
     (let w = emit (SendServo servo angle) w0 in
      case arduino w of
        None \<Rightarrow> (False, w)
      | Some s \<Rightarrow>
          if \<not> is_open s then (False, w)
          else
            (case map_of voice_SERVO_PINS servo of
               None \<Rightarrow> (False, emit (Print (UnknownServo servo)) w)
             | Some pin \<Rightarrow>
                 if pin = 0 then (False, emit (Print (UnknownServo servo)) w)
                 else
                   (case command pin angle of
                      Inl e \<Rightarrow> (False, emit (Print ServoCommandFailed) w)
                    | Inr bytes \<Rightarrow>
                        (case serial_write s bytes of
                           (Some e, s1) \<Rightarrow>
                             (False, emit (Print ServoCommandFailed) (w\<lparr>arduino := Some s1\<rparr>))
                         | (None, s1) \<Rightarrow>
                             (let w1 = emit (Sleep 50) (w\<lparr>arduino := Some s1\<rparr>) in
                              if in_waiting s1 > 0 then
                                (case serial_readline s1 of
                                   (Inl e, s2) \<Rightarrow>
                                     (False,
                                      emit (Print ServoCommandFailed) (w1\<lparr>arduino := Some s2\<rparr>))
                                 | (Inr response, s2) \<Rightarrow>
                                     (startswith (strip response) ''OK'',
                                      w1\<lparr>arduino := Some s2\<rparr>))
                              else (False, w1))))))"

section \<open>Reading the trace\<close>

text \<open>The (channel, angle) pairs of the calls of the API server's \<open>send_servo_command\<close>.\<close>

fun calls :: "event list \<Rightarrow> (int \<times> int) list" where
  "calls [] = []"
| "calls (SendPin p a # es) = (p, a) # calls es"
| "calls (e # es) = calls es"

text \<open>The calls together with the 150 ms pauses of the gesture loop.\<close>

fun pace :: "event list \<Rightarrow> event list" where
  "pace [] = []"
| "pace (SendPin p a # es) = SendPin p a # pace es"
| "pace (Sleep n # es) = (if n = 150 then Sleep n # pace es else pace es)"
| "pace (e # es) = pace es"

text \<open>The steps of a sequence whose actuator resolves to a channel, as (channel, angle).\<close>

fun api_resolved :: "(string \<times> int) list \<Rightarrow> (int \<times> int) list" where
  "api_resolved [] = []"
| "api_resolved ((servo, angle) # rest) =
     (case map_of api_SERVO_PINS servo of
        None \<Rightarrow> api_resolved rest
      | Some pin \<Rightarrow> if pin = 0 then api_resolved rest else (pin, angle) # api_resolved rest)"

text \<open>The angle of the last step for a channel, if the channel is commanded at all.\<close>

definition last_commanded :: "int \<Rightarrow> (int \<times> int) list \<Rightarrow> int option" where
  "last_commanded pin steps =
     (case filter (\<lambda>(p, a). p = pin) steps of [] \<Rightarrow> None | xs \<Rightarrow> Some (snd (last xs)))"

section \<open>Concrete links used to exercise the programs\<close>

text \<open>An open link whose first and third writes raise and whose device never answers.\<close>

definition faulty_link :: world where
  "faulty_link = \<lparr>arduino = Some \<lparr>is_open = True, written = [], in_buf = [],
       script = [Fault, Reply [], Fault]\<rparr>, trace = []\<rparr>"

text \<open>An open link whose device acknowledges the first command with \<open>OK\<close>.\<close>

definition live_link :: world where
  "live_link = \<lparr>arduino = Some \<lparr>is_open = True, written = [], in_buf = [],
       script = [Reply [Line ''OK'']]\<rparr>, trace = []\<rparr>"

section \<open>What the environment decides for one send\<close>




text \<open>An open link whose device answers the first command with the given lines.\<close>

definition ack_link :: "incoming list \<Rightarrow> world" where
  "ack_link reply = \<lparr>arduino = Some \<lparr>is_open = True, written = [], in_buf = [],
       script = [Reply reply]\<rparr>, trace = []\<rparr>"

section \<open>Opening the link: init\_arduino of both programs\<close>

text \<open>
  The environment of \<open>init_arduino\<close>: \<open>port\<close> is the object \<open>serial.Serial(...)\<close> returns
  (\<open>None\<close>: the port cannot be opened and the constructor raises), and \<open>feed n\<close> holds the
  lines that arrive from the device before the host looks at the input buffer for the
  \<open>n\<close>-th time. The loops may run forever, so they are partial functions: \<open>None\<close> is a
  call that never returns.

  The API server drains the buffer: \<^verbatim>\<open>while arduino.in_waiting > 0:\<close>, then
  \<^verbatim>\<open>return True\<close>.
\<close>

partial_function (option) api_handshake ::
  "(nat \<Rightarrow> incoming list) \<Rightarrow> nat \<Rightarrow> serial \<Rightarrow> world \<Rightarrow> (bool \<times> world) option" where
  "api_handshake feed n s0 w =
     (let s = s0\<lparr>in_buf := in_buf s0 @ feed n\<rparr> in
      if in_waiting s > 0 then
        (case serial_readline s of
           (Inl e, s') \<Rightarrow> Some (False, emit (Print NotConnected) (w\<lparr>arduino := Some s'\<rparr>))
         | (Inr response, s') \<Rightarrow>
             if strip response = ''READY''
             then Some (True, emit (Print Connected) (w\<lparr>arduino := Some s'\<rparr>))
             else api_handshake feed (Suc n) s' w)
      else Some (True, w\<lparr>arduino := Some s\<rparr>))"

definition api_init_arduino ::
  "serial option \<Rightarrow> (nat \<Rightarrow> incoming list) \<Rightarrow> world \<Rightarrow> (bool \<times> world) option" where
  "api_init_arduino port feed w =
     (case port of
        None \<Rightarrow> Some (False, emit (Print NotConnected) w)
      | Some s \<Rightarrow> api_handshake feed 0 s (emit (Sleep 2000) w))"

text \<open>
  The voice loop polls: \<^verbatim>\<open>while True: if arduino.in_waiting > 0: ...\<close>. The only exits are
  the \<open>READY\<close> line and an exception; the \<^verbatim>\<open>return True\<close> after the loop is unreachable.
\<close>

partial_function (option) voice_handshake ::
  "(nat \<Rightarrow> incoming list) \<Rightarrow> nat \<Rightarrow> serial \<Rightarrow> world \<Rightarrow> (bool \<times> world) option" where
  "voice_handshake feed n s0 w =
     (let s = s0\<lparr>in_buf := in_buf s0 @ feed n\<rparr> in
      if in_waiting s > 0 then
        (case serial_readline s of
           (Inl e, s') \<Rightarrow> Some (False, emit (Print NotConnected) (w\<lparr>arduino := Some s'\<rparr>))
         | (Inr response, s') \<Rightarrow>
             if strip response = ''READY''
             then Some (True, emit (Print Connected) (w\<lparr>arduino := Some s'\<rparr>))
             else voice_handshake feed (Suc n) s' w)
      else voice_handshake feed (Suc n) s w)"

definition voice_init_arduino ::
  "serial option \<Rightarrow> (nat \<Rightarrow> incoming list) \<Rightarrow> world \<Rightarrow> (bool \<times> world) option" where
  "voice_init_arduino port feed w =
     (case port of
        None \<Rightarrow> Some (False, emit (Print NotConnected) w)
      | Some s \<Rightarrow> voice_handshake feed 0 s (emit (Sleep 2000) w))"

text \<open>A port that opens, a device that never sends anything, and one that sends \<open>READY\<close> late.\<close>

definition fresh_port :: serial where
  "fresh_port = \<lparr>is_open = True, written = [], in_buf = [], script = []\<rparr>"

definition silent :: "nat \<Rightarrow> incoming list" where
  "silent n = []"

definition ready_at :: "nat \<Rightarrow> nat \<Rightarrow> incoming list" where
  "ready_at k n = (if n = k then [Line (''READY'' @ [CHR 0x0D, CHR 0x0A])] else [])"

section \<open>Python floats: IEEE 754 binary64 over the rationals\<close>

text \<open>
  A finite Python float is modelled by the rational it denotes. Every operation computes
  the exact rational result and rounds it once, to nearest with ties to even, onto the
  binary64 grid: 53 significant bits, and never finer than \<open>2 powi -1074\<close> (gradual
  underflow). A rounded result of magnitude \<open>2 ^ 1024\<close> or more is an overflow.

  \<open>expo x\<close> is the binary exponent of a positive \<open>x\<close>: \<open>2 powi expo x \<le> x < 2 powi (expo x + 1)\<close>.
\<close>

definition expo :: "rat \<Rightarrow> int" where
  "expo x = (if 1 \<le> x then int (floorlog 2 (nat \<lfloor>x\<rfloor>)) - 1
             else - int (floorlog 2 (nat (\<lceil>1 / x\<rceil> - 1))))"

text \<open>Rounding a rational to the nearest integer, a tie to the even neighbour.\<close>

definition half_even :: "rat \<Rightarrow> int" where
  "half_even m = (let f = \<lfloor>m\<rfloor>; d = m - of_int f in
      if d < 1 / 2 then f else if 1 / 2 < d then f + 1 else if even f then f else f + 1)"

text \<open>The grid spacing at a positive \<open>x\<close>, and rounding onto the grid.\<close>

definition ulp :: "rat \<Rightarrow> rat" where
  "ulp x = power_int 2 (max (expo x - 52) (- 1074))"

definition round_pos :: "rat \<Rightarrow> rat" where
  "round_pos x = of_int (half_even (x / ulp x)) * ulp x"

definition round_double :: "rat \<Rightarrow> rat" where
  "round_double x = (if x = 0 then 0 else if 0 < x then round_pos x else - round_pos (- x))"

text \<open>
  The result of a float operation whose exact value is \<open>x\<close>: finite, or an infinity after
  overflow. (No operation of \<open>smooth_move\<close> can produce a NaN: its operands are finite
  or, for the addition, a finite number and a product.)
\<close>

datatype pyfloat = Finite rat | PosInf | NegInf

definition overflow_threshold :: rat where
  "overflow_threshold = 2 ^ 1024"

definition to_double :: "rat \<Rightarrow> pyfloat" where
  "to_double x = (let r = round_double x in
      if overflow_threshold \<le> r then PosInf
      else if r \<le> - overflow_threshold then NegInf
      else Finite r)"

text \<open>
  \<^verbatim>\<open>a / b\<close> on two ints: CPython's true division is correctly rounded and raises instead
  of returning an infinity.
\<close>

definition int_truediv :: "int \<Rightarrow> int \<Rightarrow> py_error + rat" where
  "int_truediv a b =
     (if b = 0 then Inl ZeroDivisionError
      else case to_double (of_int a / of_int b) of Finite r \<Rightarrow> Inr r | _ \<Rightarrow> Inl OverflowError)"

text \<open>The conversion of an int operand of a float operation (\<^verbatim>\<open>i + 1\<close>, \<^verbatim>\<open>current_pos\<close>).\<close>

definition int_to_float :: "int \<Rightarrow> py_error + rat" where
  "int_to_float n = (case to_double (of_int n) of Finite r \<Rightarrow> Inr r | _ \<Rightarrow> Inl OverflowError)"

definition float_mul :: "rat \<Rightarrow> rat \<Rightarrow> pyfloat" where
  "float_mul x y = to_double (x * y)"

fun float_add :: "rat \<Rightarrow> pyfloat \<Rightarrow> pyfloat" where
  "float_add x (Finite y) = to_double (x + y)"
| "float_add x PosInf = PosInf"
| "float_add x NegInf = NegInf"

text \<open>\<^verbatim>\<open>int(x)\<close> truncates towards zero and raises on an infinity.\<close>

definition float_trunc :: "rat \<Rightarrow> int" where
  "float_trunc r = (if 0 \<le> r then \<lfloor>r\<rfloor> else \<lceil>r\<rceil>)"

fun float_to_int :: "pyfloat \<Rightarrow> py_error + int" where
  "float_to_int (Finite r) = Inr (float_trunc r)"
| "float_to_int PosInf = Inl OverflowError"
| "float_to_int NegInf = Inl OverflowError"

section \<open>voice\_stt\_tts\_fixed.py: smooth\_move\<close>

text \<open>The loop body's \<^verbatim>\<open>int(current_pos + (step_size * (i + 1)))\<close>.\<close>

definition interpolate :: "int \<Rightarrow> rat \<Rightarrow> nat \<Rightarrow> py_error + int" where
  "interpolate current_pos step_size i =
     (case int_to_float (int i + 1) of
        Inl e \<Rightarrow> Inl e
      | Inr k \<Rightarrow>
          (case int_to_float current_pos of
             Inl e \<Rightarrow> Inl e
           | Inr c \<Rightarrow> float_to_int (float_add c (float_mul step_size k))))"

text \<open>
  The \<^verbatim>\<open>for i in range(steps)\<close> loop over its index list. An exception leaves the loop
  and is handed to the \<^verbatim>\<open>except\<close> clause of \<open>smooth_move\<close>; \<open>send_servo_command\<close>
  catches its own. \<open>delay\<close> is in milliseconds (the default \<^verbatim>\<open>delay=0.02\<close> is 20, and no
  caller passes another; a delay beyond what \<^verbatim>\<open>time.sleep\<close> accepts is not modelled); the
  default \<^verbatim>\<open>steps=10\<close> is passed explicitly.
\<close>

fun smooth_loop ::
  "string \<Rightarrow> int \<Rightarrow> rat \<Rightarrow> nat \<Rightarrow> nat list \<Rightarrow> world \<Rightarrow> py_error option \<times> world" where
  "smooth_loop servo current_pos step_size delay [] w = (None, w)"
| "smooth_loop servo current_pos step_size delay (i # rest) w =
     (case interpolate current_pos step_size i of
        Inl e \<Rightarrow> (Some e, w)
      | Inr angle \<Rightarrow>
          smooth_loop servo current_pos step_size delay rest
            (emit (Sleep delay) (snd (voice_send_servo_command servo angle w))))"

definition smooth_move :: "string \<Rightarrow> int \<Rightarrow> int \<Rightarrow> nat \<Rightarrow> world \<Rightarrow> world" where
  "smooth_move servo target_angle steps delay w =
     (if \<not> link_open w then w
      else
        let current_pos = (case map_of voice_SERVO_REST servo of None \<Rightarrow> 90 | Some r \<Rightarrow> r) in
        case int_truediv (target_angle - current_pos) steps of
          Inl e \<Rightarrow> emit (Print SmoothMoveFailed) w
        | Inr step_size \<Rightarrow>
            (case smooth_loop servo current_pos step_size delay [0..<nat steps] w of
               (Some e, w') \<Rightarrow> emit (Print SmoothMoveFailed) w'
             | (None, w') \<Rightarrow> w'))"

text \<open>The calls of the voice loop's \<open>send_servo_command\<close> in a trace, and their angles.\<close>

fun servo_calls :: "event list \<Rightarrow> (string \<times> int) list" where
  "servo_calls [] = []"
| "servo_calls (SendServo s a # es) = (s, a) # servo_calls es"
| "servo_calls (e # es) = servo_calls es"

definition angles :: "event list \<Rightarrow> int list" where
  "angles es = map snd (servo_calls es)"

text \<open>
  The angles the loop computes up to its first exception: a function of the start
  angle, the step size and the indices alone.
\<close>

fun planned :: "int \<Rightarrow> rat \<Rightarrow> nat list \<Rightarrow> int list" where
  "planned current_pos step_size [] = []"
| "planned current_pos step_size (i # rest) =
     (case interpolate current_pos step_size i of
        Inl e \<Rightarrow> []
      | Inr angle \<Rightarrow> angle # planned current_pos step_size rest)"

text \<open>An open link to a silent device, a closed port, and no port at all.\<close>

definition quiet_link :: world where
  "quiet_link = \<lparr>arduino = Some \<lparr>is_open = True, written = [], in_buf = [], script = []\<rparr>, trace = []\<rparr>"

definition closed_link :: world where
  "closed_link = \<lparr>arduino = Some \<lparr>is_open = False, written = [], in_buf = [], script = []\<rparr>, trace = []\<rparr>"

definition no_link :: world where
  "no_link = \<lparr>arduino = None, trace = []\<rparr>"

section \<open>The formatter writes decimal numerals\<close>

lemma digit_char:
  assumes "d < 10"
  shows "is_digit (''0123456789'' ! d) \<and> digit_value (''0123456789'' ! d) = d"
proof -
  from assms have "d = 0 \<or> d = 1 \<or> d = 2 \<or> d = 3 \<or> d = 4 \<or> d = 5 \<or> d = 6 \<or> d = 7 \<or> d = 8 \<or> d = 9"
    by arith
  then show ?thesis by (auto simp: is_digit_def digit_value_def)
qed

lemma digit_char_zero:
  assumes "d < 10" "0 < d"
  shows "''0123456789'' ! d \<noteq> CHR ''0''"
proof -
  from assms have "d = 1 \<or> d = 2 \<or> d = 3 \<or> d = 4 \<or> d = 5 \<or> d = 6 \<or> d = 7 \<or> d = 8 \<or> d = 9"
    by arith
  then show ?thesis by auto
qed

lemma digits_small: "n < 10 \<Longrightarrow> digits n = [''0123456789'' ! n]"
  by (simp add: digits.simps)

lemma digits_large: "10 \<le> n \<Longrightarrow> digits n = digits (n div 10) @ [''0123456789'' ! (n mod 10)]"
  by (subst digits.simps) simp

lemma digits_nonempty: "digits n \<noteq> []"
  by (cases "n < 10") (simp_all add: digits_small digits_large)

lemma decimal_value_snoc: "decimal_value (ds @ [c]) = 10 * decimal_value ds + digit_value c"
  by (simp add: decimal_value_def)

lemma digits_all: "list_all is_digit (digits n)"
proof (induction n rule: digits.induct)
  case (1 n)
  show ?case
  proof (cases "n < 10")
    case True
    then show ?thesis using digit_char [of n] by (simp add: digits_small)
  next
    case False
    then show ?thesis using 1 digit_char [of "n mod 10"] by (simp add: digits_large)
  qed
qed

lemma digits_value: "decimal_value (digits n) = n"
proof (induction n rule: digits.induct)
  case (1 n)
  show ?case
  proof (cases "n < 10")
    case True
    then show ?thesis using digit_char [of n] by (simp add: digits_small decimal_value_def)
  next
    case False
    then show ?thesis using 1 digit_char [of "n mod 10"]
      by (simp add: digits_large decimal_value_snoc)
  qed
qed

lemma digits_leading: "0 < n \<Longrightarrow> hd (digits n) \<noteq> CHR ''0''"
proof (induction n rule: digits.induct)
  case (1 n)
  show ?case
  proof (cases "n < 10")
    case True
    then show ?thesis using 1(2) digit_char_zero [of n] by (simp add: digits_small)
  next
    case False
    then have "0 < n div 10" by simp
    then have "hd (digits (n div 10)) \<noteq> CHR ''0''" using 1(1) False by simp
    then show ?thesis using False digits_nonempty [of "n div 10"] by (simp add: digits_large)
  qed
qed

lemma digits_decimal: "decimal_nat n (digits n)"
proof -
  have "length (digits n) = 1 \<or> hd (digits n) \<noteq> CHR ''0''"
  proof (cases "n = 0")
    case True
    then show ?thesis by (simp add: digits_small)
  next
    case False
    then show ?thesis using digits_leading [of n] by simp
  qed
  then show ?thesis
    by (simp add: decimal_nat_def digits_nonempty digits_all digits_value)
qed

lemma str_int_decimal:
  assumes "str_int i = Inr t"
  shows "decimal_int i t"
proof -
  have t: "t = (if i < 0 then CHR ''-'' # digits (nat (- i)) else digits (nat i))"
    using assms by (simp add: str_int_def split: if_splits)
  show ?thesis using t digits_decimal by (simp add: decimal_int_def)
qed

lemma command_decimal:
  assumes "command pin angle = Inr l"
  shows "\<exists>p a. l = p @ '':'' @ a @ [CHR 0x0A] \<and> decimal_int pin p \<and> decimal_int angle a"
proof -
  obtain p where p: "str_int pin = Inr p"
    using assms by (cases "str_int pin") (simp_all add: command_def)
  obtain a where a: "str_int angle = Inr a"
    using assms p by (cases "str_int angle") (simp_all add: command_def)
  have "l = p @ '':'' @ a @ [CHR 0x0A]" using assms p a by (simp add: command_def)
  then show ?thesis using str_int_decimal [OF p] str_int_decimal [OF a] by blast
qed

lemma command_Inr_iff: "(\<exists>l. command pin angle = Inr l) \<longleftrightarrow> str_fits pin \<and> str_fits angle"
  by (auto simp: command_def str_int_def split: sum.splits if_splits)


lemma str_fits_small: "\<bar>i\<bar> < 1000 \<Longrightarrow> str_fits i"
proof -
  assume a: "\<bar>i\<bar> < 1000"
  define n where "n = nat \<bar>i\<bar>"
  have n: "n < 1000" using a by (simp add: n_def)
  have "length (digits n) \<le> 3"
  proof (cases "n < 10")
    case True then show ?thesis by (simp add: digits_small)
  next
    case False
    then have l: "digits n = digits (n div 10) @ [''0123456789'' ! (n mod 10)]" by (simp add: digits_large)
    show ?thesis
    proof (cases "n div 10 < 10")
      case True then show ?thesis using l by (simp add: digits_small)
    next
      case F2: False
      then have l2: "digits (n div 10) = digits (n div 10 div 10) @ [''0123456789'' ! (n div 10 mod 10)]"
        by (simp add: digits_large)
      have "n div 10 div 10 < 10" using n by simp
      then show ?thesis using l l2 by (simp add: digits_small)
    qed
  qed
  then show ?thesis by (simp add: str_fits_def int_max_str_digits_def n_def)
qed


lemma char_eqI: "(of_char c :: nat) = of_char d \<Longrightarrow> c = d"
  by simp

lemma digit_of_value:
  assumes "is_digit c"
  shows "''0123456789'' ! digit_value c = c \<and> digit_value c < 10"
proof -
  define k where "k = (of_char c :: nat)"
  have kk: "k = 48 \<or> k = 49 \<or> k = 50 \<or> k = 51 \<or> k = 52 \<or> k = 53 \<or> k = 54 \<or> k = 55 \<or> k = 56 \<or> k = 57"
    using assms unfolding is_digit_def k_def [symmetric] by arith
  have "k = of_char (''0123456789'' ! (k - 48))"
    using kk by (elim disjE) simp_all
  then have "''0123456789'' ! (k - 48) = c"
    unfolding k_def by (intro char_eqI) simp
  moreover have "k - 48 < 10" using kk by arith
  ultimately show ?thesis by (simp add: digit_value_def k_def)
qed

lemma foldl_decimal_ge: "a \<le> foldl (\<lambda>a c. 10 * a + digit_value c) a ds"
proof (induction ds arbitrary: a)
  case Nil
  show ?case by simp
next
  case (Cons c ds)
  have "a \<le> 10 * a + digit_value c" by simp
  also have "\<dots> \<le> foldl (\<lambda>a c. 10 * a + digit_value c) (10 * a + digit_value c) ds"
    by (rule Cons.IH)
  finally show ?case by simp
qed

lemma decimal_value_pos:
  assumes "ds \<noteq> []" "list_all is_digit ds" "hd ds \<noteq> CHR ''0''"
  shows "0 < decimal_value ds"
proof -
  obtain c rest where ds: "ds = c # rest" using assms(1) by (cases ds) auto
  have "is_digit c" "c \<noteq> CHR ''0''" using assms ds by simp_all
  then have "0 < digit_value c"
    using digit_of_value [of c] by (cases "digit_value c = 0") auto
  moreover have "digit_value c \<le> decimal_value ds"
    using foldl_decimal_ge [of "digit_value c" rest] by (simp add: decimal_value_def ds)
  ultimately show ?thesis by linarith
qed

lemma decimal_nat_unique:
  "decimal_nat n ds \<Longrightarrow> ds = digits n"
proof (induction ds arbitrary: n rule: rev_induct)
  case Nil
  then show ?case by (simp add: decimal_nat_def)
next
  case (snoc c xs)
  have dc: "is_digit c" and dx: "list_all is_digit xs"
    using snoc.prems by (simp_all add: decimal_nat_def)
  have v: "n = 10 * decimal_value xs + digit_value c"
    using snoc.prems by (simp add: decimal_nat_def decimal_value_snoc)
  have c: "''0123456789'' ! digit_value c = c" "digit_value c < 10"
    using digit_of_value [OF dc] by simp_all
  show ?case
  proof (cases "xs = []")
    case True
    then have "n = digit_value c" using v by (simp add: decimal_value_def)
    then show ?thesis using True c by (simp add: digits_small)
  next
    case False
    then have "hd xs \<noteq> CHR ''0''"
      using snoc.prems by (cases xs) (auto simp: decimal_nat_def)
    then have x: "decimal_nat (decimal_value xs) xs"
      using False dx by (simp add: decimal_nat_def)
    have pos: "0 < decimal_value xs"
      using decimal_value_pos [OF False dx \<open>hd xs \<noteq> CHR ''0''\<close>] .
    have "10 \<le> n" using v pos by simp
    moreover have "n div 10 = decimal_value xs" "n mod 10 = digit_value c"
      using v c(2) by simp_all
    ultimately have "digits n = digits (decimal_value xs) @ [''0123456789'' ! digit_value c]"
      by (simp add: digits_large)
    then show ?thesis using snoc.IH [OF x] c(1) by simp
  qed
qed

lemma decimal_int_unique:
  assumes "decimal_int i t" "decimal_int i t'"
  shows "t = t'"
proof (cases "i < 0")
  case True
  obtain ds where t: "t = CHR ''-'' # ds" "decimal_nat (nat (- i)) ds"
    using assms(1) True by (cases t) (auto simp: decimal_int_def)
  obtain ds' where t': "t' = CHR ''-'' # ds'" "decimal_nat (nat (- i)) ds'"
    using assms(2) True by (cases t') (auto simp: decimal_int_def)
  show ?thesis using t t' decimal_nat_unique by metis
next
  case False
  then show ?thesis using assms decimal_nat_unique by (simp add: decimal_int_def) metis
qed

section \<open>Helper lemmas\<close>

lemma trace_emit: "trace (emit e w) = trace w @ [e]"
  by (simp add: emit_def)

lemma arduino_emit: "arduino (emit e w) = arduino w"
  by (simp add: emit_def)

lemma since_self: "since w w = []"
  by (simp add: since_def)

lemma since_append: "trace w' = trace w @ new \<Longrightarrow> since w w' = new"
  by (simp add: since_def)

lemma api_send_trace:
  "\<exists>new. trace (snd (api_send_servo_command pin angle w)) = trace w @ SendPin pin angle # new
     \<and> calls new = [] \<and> pace new = []"
  by (auto simp: api_send_servo_command_def Let_def emit_def serial_write_def
      split: option.splits list.splits reaction.splits prod.splits sum.splits)

lemma calls_append: "calls (xs @ ys) = calls xs @ calls ys"
  by (induction xs rule: calls.induct) auto

lemma pace_append: "pace (xs @ ys) = pace xs @ pace ys"
  by (induction xs rule: pace.induct) auto

lemma api_play_trace:
  "\<exists>new. trace (api_play sequence w) = trace w @ new
     \<and> calls new = api_resolved sequence
     \<and> pace new = concat (map (\<lambda>(p, a). [SendPin p a, Sleep 150]) (api_resolved sequence))"
proof (induction sequence arbitrary: w)
  case Nil
  show ?case by simp
next
  case (Cons step rest)
  obtain servo angle where step: "step = (servo, angle)" by (cases step)
  show ?case
  proof (cases "map_of api_SERVO_PINS servo")
    case None
    with Cons.IH [of w] step show ?thesis by simp
  next
    case (Some pin)
    show ?thesis
    proof (cases "pin = 0")
      case True
      with Cons.IH [of w] step Some show ?thesis by simp
    next
      case False
      define w1 where "w1 = emit (Sleep 150) (snd (api_send_servo_command pin angle w))"
      obtain n1 where n1: "trace (snd (api_send_servo_command pin angle w)) = trace w @ SendPin pin angle # n1"
        "calls n1 = []" "pace n1 = []"
        using api_send_trace by blast
      obtain n2 where n2: "trace (api_play rest w1) = trace w1 @ n2"
        "calls n2 = api_resolved rest"
        "pace n2 = concat (map (\<lambda>(p, a). [SendPin p a, Sleep 150]) (api_resolved rest))"
        using Cons.IH [of w1] by blast
      have t: "trace (api_play (step # rest) w) = trace w @ (SendPin pin angle # n1 @ [Sleep 150] @ n2)"
        using step Some False n1(1) n2(1) by (simp add: w1_def trace_emit)
      have c: "calls (SendPin pin angle # n1 @ [Sleep 150] @ n2) = api_resolved (step # rest)"
        using step Some False n1(2) n2(2) by (simp add: calls_append)
      have p: "pace (SendPin pin angle # n1 @ [Sleep 150] @ n2)
                 = concat (map (\<lambda>(p, a). [SendPin p a, Sleep 150]) (api_resolved (step # rest)))"
        using step Some False n1(3) n2(3) by (simp add: pace_append)
      from t c p show ?thesis by blast
    qed
  qed
qed

lemma api_catalog_resolves:
  "map_of api_GESTURES name = Some sequence \<Longrightarrow>
     api_resolved sequence = map (\<lambda>(servo, angle). (the (map_of api_SERVO_PINS servo), angle)) sequence"
  by (auto simp: api_GESTURES_def api_SERVO_PINS_def split: if_splits)

section \<open>The gesture executor of the API server\<close>

text \<open>
  Claim C3. \<open>perform_gesture\<close> returns \<open>False\<close> exactly for a name outside the catalog.
  For a catalog name it returns \<open>True\<close> from every state of the link, whatever the
  writes do: every step of the sequence resolves to a channel, the calls of
  \<open>send_servo_command\<close> are the resolved steps in catalog order, once each (no retry, no
  step skipped after a failure), and each call is followed by one 150 ms pause before
  the next.
\<close>

theorem perform_gesture_plays_catalog:
  "(fst (api_perform_gesture name w) = False \<longleftrightarrow> map_of api_GESTURES name = None) \<and>
   (\<forall>sequence. map_of api_GESTURES name = Some sequence \<longrightarrow>
       fst (api_perform_gesture name w) = True
     \<and> api_resolved sequence = map (\<lambda>(servo, angle). (the (map_of api_SERVO_PINS servo), angle)) sequence
     \<and> calls (since w (snd (api_perform_gesture name w))) = api_resolved sequence
     \<and> pace (since w (snd (api_perform_gesture name w)))
         = concat (map (\<lambda>(p, a). [SendPin p a, Sleep 150]) (api_resolved sequence)))"
proof -
  have a: "fst (api_perform_gesture name w) = False \<longleftrightarrow> map_of api_GESTURES name = None"
    by (simp add: api_perform_gesture_def split: option.splits)
  have b: "fst (api_perform_gesture name w) = True
     \<and> api_resolved sequence = map (\<lambda>(servo, angle). (the (map_of api_SERVO_PINS servo), angle)) sequence
     \<and> calls (since w (snd (api_perform_gesture name w))) = api_resolved sequence
     \<and> pace (since w (snd (api_perform_gesture name w)))
         = concat (map (\<lambda>(p, a). [SendPin p a, Sleep 150]) (api_resolved sequence))"
    if h: "map_of api_GESTURES name = Some sequence" for sequence
  proof -
    obtain new where n: "trace (api_play sequence w) = trace w @ new"
      "calls new = api_resolved sequence"
      "pace new = concat (map (\<lambda>(p, a). [SendPin p a, Sleep 150]) (api_resolved sequence))"
      using api_play_trace by blast
    have s: "since w (snd (api_perform_gesture name w)) = new"
      using h n(1) by (simp add: api_perform_gesture_def since_append)
    show ?thesis
      using h s n(2,3) api_catalog_resolves [OF h] by (simp add: api_perform_gesture_def)
  qed
  from a b show ?thesis by blast
qed


theorem perform_gesture_plays_catalog_witness:
  "map_of api_GESTURES ''nod'' = Some [(''pan'', 105), (''pan'', 75), (''pan'', 105), (''pan'', 75), (''pan'', 90)]
   \<and> fst (api_perform_gesture ''nod'' faulty_link) = True
   \<and> calls (since faulty_link (snd (api_perform_gesture ''nod'' faulty_link)))
        = [(2, 105), (2, 75), (2, 105), (2, 75), (2, 90)]
   \<and> wire (snd (api_perform_gesture ''nod'' faulty_link))
        = [''2:75'' @ [CHR 0x0A], ''2:75'' @ [CHR 0x0A], ''2:90'' @ [CHR 0x0A]]"
proof -
  have g: "map_of api_GESTURES ''nod'' = Some [(''pan'', 105), (''pan'', 75), (''pan'', 105), (''pan'', 75), (''pan'', 90)]"
    by (simp add: api_GESTURES_def)
  have c: "command 2 105 = Inr (''2:105'' @ [CHR 0x0A])" "command 2 75 = Inr (''2:75'' @ [CHR 0x0A])"
    "command 2 90 = Inr (''2:90'' @ [CHR 0x0A])"
    by (simp_all add: command_def str_int_def str_fits_small digits.simps)
  have w: "wire (snd (api_perform_gesture ''nod'' faulty_link))
        = [''2:75'' @ [CHR 0x0A], ''2:75'' @ [CHR 0x0A], ''2:90'' @ [CHR 0x0A]]"
    by (simp add: api_perform_gesture_def g api_SERVO_PINS_def api_send_servo_command_def
        faulty_link_def emit_def serial_write_def wire_def Let_def c)
  from perform_gesture_plays_catalog [of "''nod''" faulty_link] g w show ?thesis
    by (simp add: api_SERVO_PINS_def)
qed

section \<open>Unknown names\<close>

text \<open>
  Claim C7. A gesture name outside the catalog makes \<open>perform_gesture\<close> return \<open>False\<close>
  and leave the whole state as it was. An actuator name outside the channel table makes
  the voice loop's \<open>send_servo_command\<close> return \<open>False\<close> with the serial object
  untouched (nothing written, nothing read); the only trace is the call itself and, on
  an open link, the printed diagnostic. Both return normally.
\<close>

theorem unknown_names_are_noops:
  "(map_of api_GESTURES name = None \<longrightarrow> api_perform_gesture name w = (False, w)) \<and>
   (map_of voice_SERVO_PINS servo = None \<longrightarrow>
      fst (voice_send_servo_command servo angle w) = False
      \<and> arduino (snd (voice_send_servo_command servo angle w)) = arduino w
      \<and> set (since w (snd (voice_send_servo_command servo angle w)))
           \<subseteq> {SendServo servo angle, Print (UnknownServo servo)})"
  by (auto simp: api_perform_gesture_def voice_send_servo_command_def Let_def emit_def since_def
      split: option.splits)

theorem unknown_names_are_noops_witness:
  "map_of api_GESTURES ''dance'' = None \<and> api_perform_gesture ''dance'' live_link = (False, live_link)
   \<and> map_of voice_SERVO_PINS ''tail'' = None
   \<and> fst (voice_send_servo_command ''tail'' 45 live_link) = False
   \<and> wire (snd (voice_send_servo_command ''tail'' 45 live_link)) = []"
proof -
  have g: "map_of api_GESTURES ''dance'' = None"
    by (simp add: api_GESTURES_def)
  have p: "map_of voice_SERVO_PINS ''tail'' = None"
    by (simp add: voice_SERVO_PINS_def)
  from unknown_names_are_noops [of "''dance''" live_link "''tail''" 45] g p show ?thesis
    by (simp add: wire_def live_link_def)
qed

section \<open>Replay\<close>

text \<open>
  Claim C9. The catalog and the channel table are constants of the program: no statement
  assigns to them, so they are no part of the state. Two invocations of
  \<open>perform_gesture\<close> with the same name, from any two states, make the same ordered
  sequence of (channel, angle) calls.
\<close>

theorem gesture_replay_is_deterministic:
  "calls (since w1 (snd (api_perform_gesture name w1)))
     = calls (since w2 (snd (api_perform_gesture name w2)))"
proof (cases "map_of api_GESTURES name")
  case None
  then show ?thesis by (simp add: api_perform_gesture_def since_self)
next
  case (Some sequence)
  have "calls (since w (snd (api_perform_gesture name w))) = api_resolved sequence" for w
  proof -
    obtain new where n: "trace (api_play sequence w) = trace w @ new" "calls new = api_resolved sequence"
      using api_play_trace by blast
    then show ?thesis using Some by (simp add: api_perform_gesture_def since_append)
  qed
  then show ?thesis by simp
qed

section \<open>Return to rest\<close>

text \<open>
  Claim C8. Every gesture of the catalog ends in its return-to-rest steps: for every
  channel commanded anywhere in the sequence, the last step commanded for that channel
  has angle 90.
\<close>

theorem gestures_end_at_rest:
  "map_of api_GESTURES name = Some sequence \<Longrightarrow> (pin, angle) \<in> set (api_resolved sequence) \<Longrightarrow>
     last_commanded pin (api_resolved sequence) = Some 90"
  by (auto simp: api_GESTURES_def api_SERVO_PINS_def last_commanded_def split: if_splits)

theorem gestures_end_at_rest_witness:
  "map_of api_GESTURES ''happy'' = Some [(''left_arm'', 170), (''right_arm'', 170), (''pan'', 75),
         (''pan'', 105), (''pan'', 75), (''pan'', 105),
         (''left_arm'', 90), (''right_arm'', 90), (''pan'', 90)]
   \<and> (4, 170) \<in> set (api_resolved [(''left_arm'', 170), (''right_arm'', 170), (''pan'', 75),
         (''pan'', 105), (''pan'', 75), (''pan'', 105),
         (''left_arm'', 90), (''right_arm'', 90), (''pan'', 90)])
   \<and> last_commanded 4 (api_resolved [(''left_arm'', 170), (''right_arm'', 170), (''pan'', 75),
         (''pan'', 105), (''pan'', 75), (''pan'', 105),
         (''left_arm'', 90), (''right_arm'', 90), (''pan'', 90)]) = Some 90"
proof -
  have g: "map_of api_GESTURES ''happy'' = Some [(''left_arm'', 170), (''right_arm'', 170), (''pan'', 75),
         (''pan'', 105), (''pan'', 75), (''pan'', 105),
         (''left_arm'', 90), (''right_arm'', 90), (''pan'', 90)]"
    by (simp add: api_GESTURES_def)
  have m: "(4, 170) \<in> set (api_resolved [(''left_arm'', 170), (''right_arm'', 170), (''pan'', 75),
         (''pan'', 105), (''pan'', 75), (''pan'', 105),
         (''left_arm'', 90), (''right_arm'', 90), (''pan'', 90)])"
    by (simp add: api_SERVO_PINS_def)
  from gestures_end_at_rest [OF g m] g m show ?thesis by simp
qed

section \<open>The result of send in the two variants\<close>



section \<open>The wire format\<close>

lemma command_line:
  assumes "command pin angle = Inr l"
  shows "(\<exists>p a. l = p @ '':'' @ a @ [CHR 0x0A] \<and> decimal_int pin p \<and> decimal_int angle a)
       \<and> (\<forall>p a. decimal_int pin p \<and> decimal_int angle a \<longrightarrow> l = p @ '':'' @ a @ [CHR 0x0A])"
proof -
  obtain p a where l: "l = p @ '':'' @ a @ [CHR 0x0A]" "decimal_int pin p" "decimal_int angle a"
    using command_decimal [OF assms] by blast
  have "l = p' @ '':'' @ a' @ [CHR 0x0A]" if "decimal_int pin p' \<and> decimal_int angle a'" for p' a'
    using that l decimal_int_unique [of pin p p'] decimal_int_unique [of angle a a'] by simp
  then show ?thesis using l by blast
qed

text \<open>
  Claim C5. A call of \<open>send_servo_command\<close>, in either program, leaves the wire as it was
  or appends exactly one line, and that line is the protocol's
  \<open><channel>:<angle>\n\<close>: the decimal numeral of the channel, a colon, the decimal numeral
  of the angle and a newline, where the numerals are the protocol's own (defined
  without the formatter) and unique. For actuator \<open>left_arm\<close> (channel 4) and angle 170
  the line is \<open>4:170\n\<close>, and with a device that acknowledges \<open>OK\<close> the call returns
  \<open>True\<close>.
\<close>

theorem send_wire_format:
  "(wire (snd (api_send_servo_command pin angle w)) = wire w
      \<or> (\<exists>l. wire (snd (api_send_servo_command pin angle w)) = wire w @ [l]
            \<and> (\<exists>p a. l = p @ '':'' @ a @ [CHR 0x0A] \<and> decimal_int pin p \<and> decimal_int angle a)
            \<and> (\<forall>p a. decimal_int pin p \<and> decimal_int angle a \<longrightarrow> l = p @ '':'' @ a @ [CHR 0x0A])))
   \<and> (wire (snd (voice_send_servo_command servo angle w)) = wire w
      \<or> (\<exists>vpin l. map_of voice_SERVO_PINS servo = Some vpin
            \<and> wire (snd (voice_send_servo_command servo angle w)) = wire w @ [l]
            \<and> (\<exists>p a. l = p @ '':'' @ a @ [CHR 0x0A] \<and> decimal_int vpin p \<and> decimal_int angle a)
            \<and> (\<forall>p a. decimal_int vpin p \<and> decimal_int angle a \<longrightarrow> l = p @ '':'' @ a @ [CHR 0x0A])))
   \<and> map_of voice_SERVO_PINS ''left_arm'' = Some 4
   \<and> fst (voice_send_servo_command ''left_arm'' 170 (ack_link [Line ''OK''])) = True
   \<and> wire (snd (voice_send_servo_command ''left_arm'' 170 (ack_link [Line ''OK''])))
        = [[CHR ''4'', CHR '':'', CHR ''1'', CHR ''7'', CHR ''0'', CHR 0x0A]]
   \<and> fst (api_send_servo_command 4 170 (ack_link [Line ''OK''])) = True
   \<and> wire (snd (api_send_servo_command 4 170 (ack_link [Line ''OK''])))
        = [[CHR ''4'', CHR '':'', CHR ''1'', CHR ''7'', CHR ''0'', CHR 0x0A]]"
proof -
  have a0: "wire (snd (api_send_servo_command pin angle w)) = wire w
      \<or> (\<exists>l. command pin angle = Inr l
            \<and> wire (snd (api_send_servo_command pin angle w)) = wire w @ [l])"
    by (auto simp: api_send_servo_command_def Let_def emit_def serial_write_def wire_def
        split: option.splits list.splits reaction.splits sum.splits)
  have a: "wire (snd (api_send_servo_command pin angle w)) = wire w
      \<or> (\<exists>l. wire (snd (api_send_servo_command pin angle w)) = wire w @ [l]
            \<and> (\<exists>p a. l = p @ '':'' @ a @ [CHR 0x0A] \<and> decimal_int pin p \<and> decimal_int angle a)
            \<and> (\<forall>p a. decimal_int pin p \<and> decimal_int angle a \<longrightarrow> l = p @ '':'' @ a @ [CHR 0x0A]))"
  proof (cases "wire (snd (api_send_servo_command pin angle w)) = wire w")
    case True
    then show ?thesis by simp
  next
    case False
    then obtain l where v: "command pin angle = Inr l"
      "wire (snd (api_send_servo_command pin angle w)) = wire w @ [l]"
      using a0 by blast
    from command_line [OF v(1)] v(2) show ?thesis by blast
  qed
  have b0: "wire (snd (voice_send_servo_command servo angle w)) = wire w
      \<or> (\<exists>vpin l. map_of voice_SERVO_PINS servo = Some vpin \<and> command vpin angle = Inr l
            \<and> wire (snd (voice_send_servo_command servo angle w)) = wire w @ [l])"
    by (auto simp: voice_send_servo_command_def Let_def emit_def serial_write_def
        serial_readline_def in_waiting_def wire_def
        split: option.splits list.splits reaction.splits incoming.splits sum.splits)
  have b: "wire (snd (voice_send_servo_command servo angle w)) = wire w
      \<or> (\<exists>vpin l. map_of voice_SERVO_PINS servo = Some vpin
            \<and> wire (snd (voice_send_servo_command servo angle w)) = wire w @ [l]
            \<and> (\<exists>p a. l = p @ '':'' @ a @ [CHR 0x0A] \<and> decimal_int vpin p \<and> decimal_int angle a)
            \<and> (\<forall>p a. decimal_int vpin p \<and> decimal_int angle a \<longrightarrow> l = p @ '':'' @ a @ [CHR 0x0A]))"
  proof (cases "wire (snd (voice_send_servo_command servo angle w)) = wire w")
    case True
    then show ?thesis by simp
  next
    case False
    then obtain vpin l where v: "map_of voice_SERVO_PINS servo = Some vpin" "command vpin angle = Inr l"
      "wire (snd (voice_send_servo_command servo angle w)) = wire w @ [l]"
      using b0 by blast
    from command_line [OF v(2)] v(1,3) show ?thesis by blast
  qed
  have c: "command 4 170 = Inr [CHR ''4'', CHR '':'', CHR ''1'', CHR ''7'', CHR ''0'', CHR 0x0A]"
    by (simp add: command_def str_int_def str_fits_small digits.simps)
  have d: "map_of voice_SERVO_PINS ''left_arm'' = Some 4"
    by (simp add: voice_SERVO_PINS_def)
  have e: "fst (voice_send_servo_command ''left_arm'' 170 (ack_link [Line ''OK''])) = True"
     "wire (snd (voice_send_servo_command ''left_arm'' 170 (ack_link [Line ''OK''])))
        = [[CHR ''4'', CHR '':'', CHR ''1'', CHR ''7'', CHR ''0'', CHR 0x0A]]"
    by (simp_all add: voice_send_servo_command_def Let_def emit_def serial_write_def c
        serial_readline_def in_waiting_def wire_def ack_link_def d startswith_def strip_def isspace_def)
  have f: "fst (api_send_servo_command 4 170 (ack_link [Line ''OK''])) = True"
     "wire (snd (api_send_servo_command 4 170 (ack_link [Line ''OK''])))
        = [[CHR ''4'', CHR '':'', CHR ''1'', CHR ''7'', CHR ''0'', CHR 0x0A]]"
    by (simp_all add: api_send_servo_command_def Let_def emit_def serial_write_def wire_def ack_link_def c)
  show ?thesis
    by (intro conjI) (rule a b d e f)+
qed

text \<open>
  The API server's send of channel 5 and angle -36 on an open link: the numerals of the
  two numbers are \<open>5\<close> and \<open>-36\<close>, so the line written is \<open>5:-36\n\<close>.
\<close>

theorem send_wire_format_witness:
  "decimal_int 5 ''5'' \<and> decimal_int (- 36) ''-36''
   \<and> wire (snd (api_send_servo_command 5 (- 36) quiet_link)) = [''5:-36'' @ [CHR 0x0A]]"
proof -
  define W where "W = wire (snd (api_send_servo_command 5 (- 36) quiet_link))"
  have n: "decimal_int 5 ''5'' \<and> decimal_int (- 36) ''-36''"
    by (simp add: decimal_int_def decimal_nat_def decimal_value_def digit_value_def is_digit_def)
  have q: "wire quiet_link = []" by (simp add: wire_def quiet_link_def)
  have "command 5 (- 36) = Inr (''5:-36'' @ [CHR 0x0A])"
    by (simp add: command_def str_int_def str_fits_small digits.simps)
  then have ne: "W \<noteq> []"
    by (simp add: W_def api_send_servo_command_def Let_def emit_def serial_write_def wire_def
        quiet_link_def)
  have "W = wire quiet_link
      \<or> (\<exists>l. W = wire quiet_link @ [l]
            \<and> (\<exists>p a. l = p @ '':'' @ a @ [CHR 0x0A] \<and> decimal_int 5 p \<and> decimal_int (- 36) a)
            \<and> (\<forall>p a. decimal_int 5 p \<and> decimal_int (- 36) a \<longrightarrow> l = p @ '':'' @ a @ [CHR 0x0A]))"
    unfolding W_def by (rule conjunct1 [OF send_wire_format [of 5 "- 36" quiet_link]])
  then have "W = [''5:-36'' @ [CHR 0x0A]]"
  proof (elim disjE exE conjE)
    assume "W = wire quiet_link"
    then show ?thesis using ne q by simp
  next
    fix l p a
    assume l: "W = wire quiet_link @ [l]"
      and u: "\<forall>p a. decimal_int 5 p \<and> decimal_int (- 36) a \<longrightarrow> l = p @ '':'' @ a @ [CHR 0x0A]"
    have "l = ''5'' @ '':'' @ ''-36'' @ [CHR 0x0A]"
      using u [rule_format, OF n] .
    then show ?thesis using l q by simp
  qed
  then show ?thesis using n unfolding W_def by simp
qed

section \<open>The handshake\<close>

lemma voice_handshake_silent:
  assumes "voice_handshake feed n s w = Some r"
  shows "\<not> (in_buf s = [] \<and> (\<forall>k. feed k = []))"
proof (rule voice_handshake.raw_induct [where P = "\<lambda>feed n s w r. \<not> (in_buf s = [] \<and> (\<forall>k. feed k = []))", OF _ assms])
  fix vh :: "(nat \<Rightarrow> incoming list) \<Rightarrow> nat \<Rightarrow> serial \<Rightarrow> world \<Rightarrow> (bool \<times> world) option"
  fix feed n s0 w y
  assume ih: "\<And>feed n s0 w y. vh feed n s0 w = Some y \<Longrightarrow> \<not> (in_buf s0 = [] \<and> (\<forall>k. feed k = []))"
  assume body: "(let s = s0\<lparr>in_buf := in_buf s0 @ feed n\<rparr>
      in if 0 < in_waiting s
         then case serial_readline s of
              (Inl e, s') \<Rightarrow> Some (False, emit (Print NotConnected) (w\<lparr>arduino := Some s'\<rparr>))
              | (Inr response, s') \<Rightarrow>
                  if strip response = ''READY''
                  then Some (True, emit (Print Connected) (w\<lparr>arduino := Some s'\<rparr>))
                  else vh feed (Suc n) s' w
         else vh feed (Suc n) s w) = Some y"
  show "\<not> (in_buf s0 = [] \<and> (\<forall>k. feed k = []))"
  proof
    assume a: "in_buf s0 = [] \<and> (\<forall>k. feed k = [])"
    then have same: "s0\<lparr>in_buf := in_buf s0 @ feed n\<rparr> = s0"
      by simp
    have "vh feed (Suc n) s0 w = Some y"
      using body a unfolding same Let_def by (simp add: in_waiting_def)
    from ih [OF this] a show False by simp
  qed
qed

text \<open>
  Claim C2. With a port that opens and a device that never sends anything, the API
  server's \<open>init_arduino\<close> returns \<open>True\<close> after its two-second wait, but the voice
  loop's \<open>init_arduino\<close> never returns: its polling loop has no exit but the \<open>READY\<close>
  line. (It does return \<open>True\<close> once \<open>READY\<close> arrives, here at the third look.)
\<close>

theorem voice_init_arduino_never_returns:
  "voice_init_arduino (Some fresh_port) silent w = None
   \<and> api_init_arduino (Some fresh_port) silent w
        = Some (True, (emit (Sleep 2000) w)\<lparr>arduino := Some fresh_port\<rparr>)
   \<and> voice_init_arduino (Some fresh_port) (ready_at 2) w
        = Some (True, emit (Print Connected) ((emit (Sleep 2000) w)\<lparr>arduino := Some fresh_port\<rparr>))"
proof -
  have v: "voice_init_arduino (Some fresh_port) silent w = None"
  proof (cases "voice_init_arduino (Some fresh_port) silent w")
    case None
    then show ?thesis .
  next
    case (Some r)
    then have "voice_handshake silent 0 fresh_port (emit (Sleep 2000) w) = Some r"
      by (simp add: voice_init_arduino_def)
    from voice_handshake_silent [OF this] show ?thesis
      by (simp add: fresh_port_def silent_def)
  qed
  have a: "api_init_arduino (Some fresh_port) silent w
        = Some (True, (emit (Sleep 2000) w)\<lparr>arduino := Some fresh_port\<rparr>)"
    by (simp add: api_init_arduino_def api_handshake.simps [of silent 0] silent_def Let_def
        in_waiting_def fresh_port_def)
  have r: "voice_init_arduino (Some fresh_port) (ready_at 2) w
        = Some (True, emit (Print Connected) ((emit (Sleep 2000) w)\<lparr>arduino := Some fresh_port\<rparr>))"
    by (simp add: voice_init_arduino_def voice_handshake.simps [of "ready_at 2"] ready_at_def Let_def
        in_waiting_def fresh_port_def serial_readline_def strip_def isspace_def)
  from v a r show ?thesis by blast
qed

section \<open>Rounding is monotone\<close>

lemma expo_ge1:
  assumes "1 \<le> x"
  shows "power_int 2 (expo x) \<le> x \<and> x < power_int 2 (expo x + 1)"
proof -
  define n where "n = nat \<lfloor>x\<rfloor>"
  have n1: "0 < n" using assms by (simp add: n_def)
  have nx: "of_nat n \<le> x" "x < of_nat n + 1"
    using assms by (simp_all add: n_def) linarith+
  from floorlog_bounds [OF n1, of 2] have b: "2 ^ (floorlog 2 n - 1) \<le> n" "n < 2 ^ floorlog 2 n"
    by simp_all
  have fl: "0 < floorlog 2 n" using n1 by (simp add: floorlog_def)
  have e: "expo x = int (floorlog 2 n) - 1" using assms by (simp add: expo_def n_def)
  have e1: "power_int (2::rat) (expo x) = 2 ^ (floorlog 2 n - 1)"
    using fl by (simp add: e power_int_def nat_diff_distrib' )
  have e2: "power_int (2::rat) (expo x + 1) = 2 ^ floorlog 2 n"
    by (simp add: e power_int_def)
  have "(2::rat) ^ (floorlog 2 n - 1) \<le> of_nat n"
    using b(1) by (metis of_nat_le_iff of_nat_numeral of_nat_power)
  moreover have "(of_nat n :: rat) + 1 \<le> 2 ^ floorlog 2 n"
  proof -
    have "n + 1 \<le> 2 ^ floorlog 2 n" using b(2) by simp
    then have "(of_nat (n + 1) :: rat) \<le> of_nat (2 ^ floorlog 2 n)" by (simp only: of_nat_le_iff)
    then show ?thesis by simp
  qed
  ultimately show ?thesis using nx e1 e2 by linarith
qed


lemma expo_lt1:
  assumes "0 < x" "x < 1"
  shows "power_int 2 (expo x) \<le> x \<and> x < power_int 2 (expo x + 1)"
proof -
  define y where "y = 1 / x"
  define n where "n = nat (\<lceil>y\<rceil> - 1)"
  have y1: "1 < y" using assms by (simp add: y_def)
  then have c2: "2 \<le> \<lceil>y\<rceil>" by linarith
  then have n1: "0 < n" by (simp add: n_def)
  have nn: "int n = \<lceil>y\<rceil> - 1" using c2 by (simp add: n_def)
  have ny: "of_nat n < y" "y \<le> of_nat n + 1"
  proof -
    have "(of_int (int n) :: rat) < y" unfolding nn by linarith
    then show "of_nat n < y" by simp
    have "y \<le> (of_int (int n) :: rat) + 1" unfolding nn by simp
    then show "y \<le> of_nat n + 1" by simp
  qed
  define k where "k = floorlog 2 n"
  from floorlog_bounds [OF n1, of 2] have b: "2 ^ (k - 1) \<le> n" "n < 2 ^ k"
    by (simp_all add: k_def)
  have k0: "0 < k" using n1 by (simp add: floorlog_def k_def)
  have e: "expo x = - int k" using assms by (simp add: expo_def n_def y_def k_def)
  have lo: "(2::rat) ^ (k - 1) < y"
  proof -
    have "(of_nat (2 ^ (k - 1)) :: rat) \<le> of_nat n" using b(1) by (simp only: of_nat_le_iff)
    then have "(2::rat) ^ (k - 1) \<le> of_nat n" by simp
    then show ?thesis using ny(1) by linarith
  qed
  have hi: "y \<le> (2::rat) ^ k"
  proof -
    have "n + 1 \<le> 2 ^ k" using b(2) by simp
    then have "(of_nat (n + 1) :: rat) \<le> of_nat (2 ^ k)" by (simp only: of_nat_le_iff)
    then have "(of_nat n :: rat) + 1 \<le> 2 ^ k" by simp
    then show ?thesis using ny(2) by linarith
  qed
  have x: "x = 1 / y" using assms by (simp add: y_def)
  have e1: "power_int (2::rat) (expo x) = 1 / 2 ^ k"
    unfolding e by (simp add: power_int_minus field_simps)
  have e2: "power_int (2::rat) (expo x + 1) = 1 / 2 ^ (k - 1)"
  proof -
    have "expo x + 1 = - int (k - 1)" using k0 by (simp add: e)
    moreover have "power_int (2::rat) (- int (k - 1)) = 1 / 2 ^ (k - 1)"
      by (simp add: power_int_minus field_simps)
    ultimately show ?thesis by (simp only:)
  qed
  have ypos: "0 < y" using y1 by simp
  have "1 / 2 ^ k \<le> 1 / y"
    using hi ypos by (simp add: frac_le)
  moreover have "1 / y < 1 / 2 ^ (k - 1)"
    using lo by (simp add: frac_less2)
  ultimately show ?thesis using e1 e2 x by simp
qed

lemma expo_bounds:
  "0 < x \<Longrightarrow> power_int 2 (expo x) \<le> x \<and> x < power_int 2 (expo x + 1)"
  using expo_ge1 [of x] expo_lt1 [of x] by (cases "1 \<le> x") auto

lemma expo_mono:
  assumes "0 < x" "x \<le> y"
  shows "expo x \<le> expo y"
proof (rule ccontr)
  assume "\<not> expo x \<le> expo y"
  then have "expo y + 1 \<le> expo x" by simp
  then have "power_int (2::rat) (expo y + 1) \<le> power_int 2 (expo x)"
    by (simp add: power_int_increasing)
  moreover have "y < power_int 2 (expo y + 1)" "power_int 2 (expo x) \<le> x"
    using expo_bounds [of x] expo_bounds [of y] assms by auto
  ultimately show False using assms by linarith
qed

lemma expo_unique:
  assumes "power_int 2 e \<le> x" "x < power_int 2 (e + 1)"
  shows "expo x = e"
proof -
  have xp: "0 < x" using assms(1) by (smt (verit) zero_less_power_int zero_less_numeral less_le_trans)
  have b: "power_int 2 (expo x) \<le> x" "x < power_int 2 (expo x + 1)"
    using expo_bounds [OF xp] by auto
  have "\<not> e + 1 \<le> expo x"
  proof
    assume "e + 1 \<le> expo x"
    then have "power_int (2::rat) (e + 1) \<le> power_int 2 (expo x)" by (simp add: power_int_increasing)
    then show False using b(1) assms(2) by linarith
  qed
  moreover have "\<not> expo x + 1 \<le> e"
  proof
    assume "expo x + 1 \<le> e"
    then have "power_int (2::rat) (expo x + 1) \<le> power_int 2 e" by (simp add: power_int_increasing)
    then show False using b(2) assms(1) by linarith
  qed
  ultimately show ?thesis by linarith
qed


lemma half_even_of_int: "half_even (of_int k) = k"
  by (simp add: half_even_def)

lemma half_even_floor: "\<lfloor>m\<rfloor> \<le> half_even m \<and> half_even m \<le> \<lfloor>m\<rfloor> + 1"
  by (simp add: half_even_def Let_def)

lemma half_even_mono:
  assumes "m \<le> m'"
  shows "half_even m \<le> half_even m'"
proof (cases "\<lfloor>m\<rfloor> = \<lfloor>m'\<rfloor>")
  case True
  then show ?thesis using assms by (auto simp: half_even_def Let_def)
next
  case False
  then have "\<lfloor>m\<rfloor> + 1 \<le> \<lfloor>m'\<rfloor>" using assms floor_mono [of m m'] by linarith
  then show ?thesis using half_even_floor [of m] half_even_floor [of m'] by linarith
qed

lemma ulp_pos: "0 < ulp x"
  by (simp add: ulp_def)

lemma pow2_quotient:
  assumes "p \<le> e"
  shows "power_int (2::rat) e / power_int 2 p = of_int (2 ^ nat (e - p))"
proof -
  have "power_int (2::rat) e / power_int 2 p = power_int 2 (e - p)"
    by (simp add: power_int_diff)
  also have "\<dots> = 2 ^ nat (e - p)" using assms by (simp add: power_int_def)
  finally show ?thesis by simp
qed

lemma grid_le:
  assumes "x \<le> power_int 2 e" "p \<le> e"
  shows "of_int (half_even (x / power_int 2 p)) * power_int 2 p \<le> (power_int 2 e :: rat)"
proof -
  have up: "0 < power_int (2::rat) p" by simp
  have "x / power_int 2 p \<le> power_int 2 e / power_int 2 p"
    using assms(1) up by (simp add: divide_right_mono)
  then have "x / power_int 2 p \<le> of_int (2 ^ nat (e - p))"
    by (simp only: pow2_quotient [OF assms(2)])
  then have "half_even (x / power_int 2 p) \<le> 2 ^ nat (e - p)"
    using half_even_mono half_even_of_int by metis
  then have "(of_int (half_even (x / power_int 2 p)) :: rat) \<le> of_int (2 ^ nat (e - p))"
    by (simp only: of_int_le_iff)
  then have "of_int (half_even (x / power_int 2 p)) * power_int 2 p
               \<le> (of_int (2 ^ nat (e - p)) :: rat) * power_int 2 p"
    using up by (simp add: mult_right_mono)
  also have "\<dots> = power_int 2 e"
    using pow2_quotient [OF assms(2)] up by (simp add: field_simps)
  finally show ?thesis .
qed

lemma grid_ge:
  assumes "power_int 2 e \<le> x" "p \<le> e"
  shows "(power_int 2 e :: rat) \<le> of_int (half_even (x / power_int 2 p)) * power_int 2 p"
proof -
  have up: "0 < power_int (2::rat) p" by simp
  have "power_int 2 e / power_int 2 p \<le> x / power_int 2 p"
    using assms(1) up by (simp add: divide_right_mono)
  then have "of_int (2 ^ nat (e - p)) \<le> x / power_int 2 p"
    by (simp only: pow2_quotient [OF assms(2)])
  then have "2 ^ nat (e - p) \<le> half_even (x / power_int 2 p)"
    using half_even_mono half_even_of_int by metis
  then have "(of_int (2 ^ nat (e - p)) :: rat) \<le> of_int (half_even (x / power_int 2 p))"
    by (simp only: of_int_le_iff)
  then have le: "(of_int (2 ^ nat (e - p)) :: rat) * power_int 2 p
               \<le> of_int (half_even (x / power_int 2 p)) * power_int 2 p"
    using up by (simp add: mult_right_mono)
  have "power_int 2 e = (of_int (2 ^ nat (e - p)) :: rat) * power_int 2 p"
    using pow2_quotient [OF assms(2)] up by (simp add: field_simps)
  also note le
  finally show ?thesis .
qed

lemma round_pos_mono:
  assumes "0 < x" "x \<le> y"
  shows "round_pos x \<le> round_pos y"
proof -
  define px where "px = max (expo x - 52) (- 1074)"
  define py where "py = max (expo y - 52) (- 1074)"
  have yp: "0 < y" using assms by simp
  have exy: "expo x \<le> expo y" using expo_mono [OF assms] .
  then have pxy: "px \<le> py" by (simp add: px_def py_def)
  have rx: "round_pos x = of_int (half_even (x / power_int 2 px)) * power_int 2 px"
    by (simp add: round_pos_def ulp_def px_def)
  have ry: "round_pos y = of_int (half_even (y / power_int 2 py)) * power_int 2 py"
    by (simp add: round_pos_def ulp_def py_def)
  show ?thesis
  proof (cases "px = py")
    case True
    have up: "0 < power_int (2::rat) py" by simp
    have "x / power_int 2 py \<le> y / power_int 2 py"
      using assms(2) up by (simp add: divide_right_mono)
    then have "half_even (x / power_int 2 py) \<le> half_even (y / power_int 2 py)"
      by (rule half_even_mono)
    then have "(of_int (half_even (x / power_int 2 py)) :: rat) \<le> of_int (half_even (y / power_int 2 py))"
      by (simp only: of_int_le_iff)
    then show ?thesis unfolding rx ry True using up by (simp add: mult_right_mono)
  next
    case False
    then have lt: "px < py" using pxy by simp
    then have py_eq: "py = expo y - 52" by (simp add: px_def py_def max_def split: if_splits)
    have ex_lt: "expo x + 1 \<le> expo y" using lt by (simp add: px_def py_def max_def split: if_splits)
    have "x < power_int 2 (expo x + 1)" using expo_bounds [OF assms(1)] by simp
    also have "\<dots> \<le> power_int 2 (expo y)" using ex_lt by (simp add: power_int_increasing)
    finally have xb: "x \<le> power_int 2 (expo y)" by simp
    have yb: "power_int 2 (expo y) \<le> y" using expo_bounds [OF yp] by simp
    have "px \<le> expo y" using lt py_eq by simp
    from grid_le [OF xb this] have "round_pos x \<le> power_int 2 (expo y)" by (simp only: rx)
    moreover have "py \<le> expo y" using py_eq by simp
    from grid_ge [OF yb this] have "power_int 2 (expo y) \<le> round_pos y" by (simp only: ry)
    ultimately show ?thesis by simp
  qed
qed

lemma round_pos_nonneg: "0 < x \<Longrightarrow> 0 \<le> round_pos x"
proof -
  assume "0 < x"
  then have "0 \<le> x / ulp x" using ulp_pos [of x] by simp
  then have "0 \<le> half_even (x / ulp x)"
    using half_even_mono [of 0 "x / ulp x"] half_even_of_int [of 0] by simp
  then show ?thesis using ulp_pos [of x] by (simp add: round_pos_def)
qed

lemma round_double_mono:
  assumes "x \<le> y"
  shows "round_double x \<le> round_double y"
proof -
  consider "0 < x" | "x \<le> 0" "0 \<le> y" | "y < 0" by linarith
  then show ?thesis
  proof cases
    case 1
    then show ?thesis using assms round_pos_mono [of x y] by (simp add: round_double_def)
  next
    case 2
    have "round_double x \<le> 0" using 2(1) round_pos_nonneg [of "- x"] by (simp add: round_double_def)
    moreover have "0 \<le> round_double y" using 2(2) round_pos_nonneg [of y] by (simp add: round_double_def)
    ultimately show ?thesis by simp
  next
    case 3
    then have "round_pos (- y) \<le> round_pos (- x)" using assms round_pos_mono [of "- y" "- x"] by simp
    then show ?thesis using 3 assms by (simp add: round_double_def)
  qed
qed

lemma round_double_minus: "round_double (- x) = - round_double x"
  by (simp add: round_double_def)

lemma round_double_pow2:
  assumes "- 1074 \<le> e"
  shows "round_double (power_int 2 e) = power_int 2 e"
proof -
  have pos: "0 < power_int (2::rat) e" by simp
  have ex: "expo (power_int 2 e) = e"
    by (rule expo_unique) (simp_all add: power_int_strict_increasing)
  define p where "p = max (e - 52) (- 1074)"
  have pe: "p \<le> e" using assms by (simp add: p_def)
  have r: "round_pos (power_int 2 e) = of_int (half_even (power_int 2 e / power_int 2 p)) * power_int 2 p"
    by (simp add: round_pos_def ulp_def ex p_def)
  have "round_pos (power_int 2 e) = power_int 2 e"
    using grid_le [OF order_refl pe, of ] grid_ge [OF order_refl pe] unfolding r by (rule antisym)
  then show ?thesis using pos by (simp add: round_double_def)
qed

lemma round_double_bound:
  assumes "\<bar>x\<bar> \<le> 2 ^ n"
  shows "\<bar>round_double x\<bar> \<le> 2 ^ n"
proof -
  have p: "round_double (2 ^ n) = 2 ^ n"
    using round_double_pow2 [of "int n"] by simp
  have "round_double x \<le> round_double (2 ^ n)"
    using assms by (intro round_double_mono) simp
  moreover have "round_double (- (2 ^ n)) \<le> round_double x"
    using assms by (intro round_double_mono) simp
  ultimately show ?thesis using p by (simp add: round_double_minus abs_le_iff)
qed

lemma to_double_finite:
  assumes "\<bar>x\<bar> \<le> 2 ^ n" "n < 1024"
  shows "to_double x = Finite (round_double x)"
proof -
  have "(2::rat) ^ n < overflow_threshold"
    unfolding overflow_threshold_def using assms(2) by (intro power_strict_increasing) simp_all
  then have "\<bar>round_double x\<bar> < overflow_threshold"
    using round_double_bound [OF assms(1)] by linarith
  then show ?thesis by (simp add: to_double_def Let_def abs_less_iff)
qed

lemma to_double_overflow:
  assumes "overflow_threshold \<le> x"
  shows "to_double x = PosInf"
proof -
  have "round_double overflow_threshold = overflow_threshold"
    unfolding overflow_threshold_def using round_double_pow2 [of 1024] by simp
  then have "overflow_threshold \<le> round_double x"
    using round_double_mono [OF assms] by simp
  then show ?thesis by (simp add: to_double_def Let_def)
qed

lemma to_double_Finite_eq: "to_double x = Finite r \<Longrightarrow> r = round_double x"
  by (simp add: to_double_def Let_def split: if_splits)

lemma float_trunc_mono:
  assumes "x \<le> y"
  shows "float_trunc x \<le> float_trunc y"
proof -
  consider "0 \<le> x" | "x < 0" "0 \<le> y" | "y < 0" by linarith
  then show ?thesis
  proof cases
    case 1
    then show ?thesis using assms by (simp add: float_trunc_def floor_mono)
  next
    case 2
    have "\<lceil>x\<rceil> \<le> 0" using 2(1) by (simp add: ceiling_le_zero)
    moreover have "0 \<le> \<lfloor>y\<rfloor>" using 2(2) by simp
    moreover have "float_trunc x = \<lceil>x\<rceil>" "float_trunc y = \<lfloor>y\<rfloor>"
      using 2 by (simp_all add: float_trunc_def)
    ultimately show ?thesis by linarith
  next
    case 3
    then show ?thesis using assms by (simp add: float_trunc_def ceiling_mono)
  qed
qed

lemma interpolate_Inr:
  assumes "interpolate c q i = Inr a"
  shows "a = float_trunc (round_double (round_double (of_int c)
               + round_double (q * round_double (of_int (int i + 1)))))"
proof -
  obtain k where k: "int_to_float (int i + 1) = Inr k"
    using assms by (cases "int_to_float (int i + 1)") (simp_all add: interpolate_def)
  obtain cf where cf: "int_to_float c = Inr cf"
    using assms k by (cases "int_to_float c") (simp_all add: interpolate_def)
  have r: "float_to_int (float_add cf (float_mul q k)) = Inr a"
    using assms k cf by (simp add: interpolate_def)
  obtain p where p: "float_mul q k = Finite p"
    using r by (cases "float_mul q k") simp_all
  obtain s where s: "to_double (cf + p) = Finite s"
    using r p by (cases "to_double (cf + p)") simp_all
  have a: "a = float_trunc s" using r p s by simp
  have "k = round_double (of_int (int i + 1))"
    using k by (auto simp: int_to_float_def split: pyfloat.splits dest: to_double_Finite_eq)
  moreover have "cf = round_double (of_int c)"
    using cf by (auto simp: int_to_float_def split: pyfloat.splits dest: to_double_Finite_eq)
  moreover have "p = round_double (q * k)"
    using p by (auto simp: float_mul_def dest: to_double_Finite_eq)
  moreover have "s = round_double (cf + p)"
    using s by (rule to_double_Finite_eq)
  ultimately show ?thesis using a by simp
qed

lemma round_double_nonneg: "0 \<le> x \<Longrightarrow> 0 \<le> round_double x"
  using round_double_mono [of 0 x] by (simp add: round_double_def)

lemma round_double_nonpos: "x \<le> 0 \<Longrightarrow> round_double x \<le> 0"
  using round_double_mono [of x 0] by (simp add: round_double_def)

lemma interpolate_mono:
  assumes "0 \<le> q" "i \<le> j" "interpolate c q i = Inr a" "interpolate c q j = Inr b"
  shows "a \<le> b"
proof -
  have "(of_int (int i + 1) :: rat) \<le> of_int (int j + 1)" using assms(2) by simp
  then have "round_double (of_int (int i + 1)) \<le> round_double (of_int (int j + 1))"
    by (rule round_double_mono)
  then have "q * round_double (of_int (int i + 1)) \<le> q * round_double (of_int (int j + 1))"
    using assms(1) by (rule mult_left_mono)
  then have "round_double (q * round_double (of_int (int i + 1)))
               \<le> round_double (q * round_double (of_int (int j + 1)))"
    by (rule round_double_mono)
  then have "round_double (of_int c) + round_double (q * round_double (of_int (int i + 1)))
           \<le> round_double (of_int c) + round_double (q * round_double (of_int (int j + 1)))"
    by (rule add_left_mono)
  then have "round_double (round_double (of_int c) + round_double (q * round_double (of_int (int i + 1))))
           \<le> round_double (round_double (of_int c) + round_double (q * round_double (of_int (int j + 1))))"
    by (rule round_double_mono)
  then show ?thesis
    unfolding interpolate_Inr [OF assms(3)] interpolate_Inr [OF assms(4)] by (rule float_trunc_mono)
qed

lemma interpolate_antimono:
  assumes "q \<le> 0" "i \<le> j" "interpolate c q i = Inr a" "interpolate c q j = Inr b"
  shows "b \<le> a"
proof -
  have "(of_int (int i + 1) :: rat) \<le> of_int (int j + 1)" using assms(2) by simp
  then have "round_double (of_int (int i + 1)) \<le> round_double (of_int (int j + 1))"
    by (rule round_double_mono)
  then have "q * round_double (of_int (int j + 1)) \<le> q * round_double (of_int (int i + 1))"
    using assms(1) by (rule mult_left_mono_neg)
  then have "round_double (q * round_double (of_int (int j + 1)))
               \<le> round_double (q * round_double (of_int (int i + 1)))"
    by (rule round_double_mono)
  then have "round_double (of_int c) + round_double (q * round_double (of_int (int j + 1)))
           \<le> round_double (of_int c) + round_double (q * round_double (of_int (int i + 1)))"
    by (rule add_left_mono)
  then have "round_double (round_double (of_int c) + round_double (q * round_double (of_int (int j + 1))))
           \<le> round_double (round_double (of_int c) + round_double (q * round_double (of_int (int i + 1))))"
    by (rule round_double_mono)
  then show ?thesis
    unfolding interpolate_Inr [OF assms(3)] interpolate_Inr [OF assms(4)] by (rule float_trunc_mono)
qed

lemma interpolate_defined:
  assumes "\<bar>q\<bar> \<le> 2 ^ 500" "int i + 1 \<le> 2 ^ 500" "\<bar>c\<bar> \<le> 2 ^ 500"
  shows "\<exists>a. interpolate c q i = Inr a"
proof -
  define k where "k = round_double (of_int (int i + 1))"
  define cf where "cf = round_double (of_int c)"
  define p where "p = round_double (q * k)"
  have ik: "\<bar>of_int (int i + 1) :: rat\<bar> \<le> 2 ^ 500"
  proof -
    have "(of_int (int i + 1) :: rat) \<le> of_int (2 ^ 500)" using assms(2) by (simp only: of_int_le_iff)
    then show ?thesis by simp
  qed
  have ic: "\<bar>of_int c :: rat\<bar> \<le> 2 ^ 500"
  proof -
    have "(of_int \<bar>c\<bar> :: rat) \<le> of_int (2 ^ 500)" using assms(3) by (simp only: of_int_le_iff)
    then show ?thesis by simp
  qed
  have kb: "\<bar>k\<bar> \<le> 2 ^ 500" unfolding k_def using ik by (rule round_double_bound)
  have cb: "\<bar>cf\<bar> \<le> 2 ^ 500" unfolding cf_def using ic by (rule round_double_bound)
  have "\<bar>q * k\<bar> \<le> 2 ^ 500 * 2 ^ 500"
    unfolding abs_mult using assms(1) kb by (intro mult_mono) simp_all
  then have qk: "\<bar>q * k\<bar> \<le> 2 ^ 1000" by (simp only: power_add [symmetric]) simp
  have pb: "\<bar>p\<bar> \<le> 2 ^ 1000" unfolding p_def using qk by (rule round_double_bound)
  have "(2::rat) ^ 500 \<le> 2 ^ 1000" by (intro power_increasing) simp_all
  then have "\<bar>cf + p\<bar> \<le> 2 ^ 1000 + 2 ^ 1000" using cb pb by linarith
  then have sb: "\<bar>cf + p\<bar> \<le> 2 ^ 1001" by (simp only: power_Suc [symmetric] mult_2 [symmetric]) simp
  have 1: "int_to_float (int i + 1) = Inr k"
    using to_double_finite [OF ik] by (simp add: int_to_float_def k_def)
  have 2: "int_to_float c = Inr cf"
    using to_double_finite [OF ic] by (simp add: int_to_float_def cf_def)
  have 3: "float_mul q k = Finite p"
    using to_double_finite [OF qk] by (simp add: float_mul_def p_def)
  have 4: "to_double (cf + p) = Finite (round_double (cf + p))"
    using to_double_finite [OF sb] by simp
  show ?thesis by (simp add: interpolate_def 1 2 3 4)
qed

lemma servo_calls_append: "servo_calls (xs @ ys) = servo_calls xs @ servo_calls ys"
  by (induction xs rule: servo_calls.induct) auto

lemma voice_send_trace:
  "\<exists>new. trace (snd (voice_send_servo_command servo angle w)) = trace w @ SendServo servo angle # new
     \<and> servo_calls new = []"
  by (auto simp: voice_send_servo_command_def Let_def emit_def serial_write_def serial_readline_def
      split: option.splits list.splits reaction.splits incoming.splits sum.splits)

lemma voice_send_link_open:
  "link_open (snd (voice_send_servo_command servo angle w)) = link_open w"
  by (auto simp: voice_send_servo_command_def Let_def emit_def serial_write_def serial_readline_def
      link_open_def
      split: option.splits list.splits reaction.splits incoming.splits sum.splits)

lemma link_open_emit: "link_open (emit e w) = link_open w"
  by (simp add: link_open_def emit_def)

lemma smooth_loop_trace:
  "\<exists>new. trace (snd (smooth_loop servo c q d idx w)) = trace w @ new
     \<and> servo_calls new = map (Pair servo) (planned c q idx)"
proof (induction idx arbitrary: w)
  case Nil
  show ?case by simp
next
  case (Cons i rest)
  show ?case
  proof (cases "interpolate c q i")
    case (Inl e)
    then show ?thesis by simp
  next
    case (Inr a)
    define w1 where "w1 = emit (Sleep d) (snd (voice_send_servo_command servo a w))"
    obtain n1 where n1: "trace (snd (voice_send_servo_command servo a w)) = trace w @ SendServo servo a # n1"
      "servo_calls n1 = []"
      using voice_send_trace by blast
    obtain n2 where n2: "trace (snd (smooth_loop servo c q d rest w1)) = trace w1 @ n2"
      "servo_calls n2 = map (Pair servo) (planned c q rest)"
      using Cons.IH [of w1] by blast
    have t: "trace (snd (smooth_loop servo c q d (i # rest) w)) = trace w @ (SendServo servo a # n1 @ [Sleep d] @ n2)"
      using Inr n1(1) n2(1) by (simp add: w1_def trace_emit)
    have s: "servo_calls (SendServo servo a # n1 @ [Sleep d] @ n2) = map (Pair servo) (planned c q (i # rest))"
      using Inr n1(2) n2(2) by (simp add: servo_calls_append)
    from t s show ?thesis by blast
  qed
qed

lemma smooth_loop_link_open:
  "link_open (snd (smooth_loop servo c q d idx w)) = link_open w"
  by (induction idx arbitrary: w)
     (auto simp: voice_send_link_open link_open_emit split: sum.splits)

lemma rest_lookup: "(case map_of voice_SERVO_REST servo of None \<Rightarrow> 90 | Some r \<Rightarrow> r) = 90"
  by (simp add: voice_SERVO_REST_def)

lemma smooth_move_angles:
  assumes "link_open w"
  shows "servo_calls (since w (smooth_move servo target steps d w))
           = map (Pair servo) (case int_truediv (target - 90) steps of
                                 Inl e \<Rightarrow> [] | Inr q \<Rightarrow> planned 90 q [0..<nat steps])"
proof (cases "int_truediv (target - 90) steps")
  case (Inl e)
  then have "smooth_move servo target steps d w = emit (Print SmoothMoveFailed) w"
    using assms by (simp add: smooth_move_def rest_lookup)
  then show ?thesis using Inl by (simp add: since_def trace_emit)
next
  case (Inr q)
  obtain new where n: "trace (snd (smooth_loop servo 90 q d [0..<nat steps] w)) = trace w @ new"
    "servo_calls new = map (Pair servo) (planned 90 q [0..<nat steps])"
    using smooth_loop_trace by blast
  obtain r w' where r: "smooth_loop servo 90 q d [0..<nat steps] w = (r, w')"
    by (cases "smooth_loop servo 90 q d [0..<nat steps] w")
  have w': "trace w' = trace w @ new" using n(1) r by simp
  have "smooth_move servo target steps d w = (case r of Some e \<Rightarrow> emit (Print SmoothMoveFailed) w' | None \<Rightarrow> w')"
    using assms Inr r by (simp add: smooth_move_def rest_lookup split: option.splits)
  then have "\<exists>tail. trace (smooth_move servo target steps d w) = trace w @ new @ tail \<and> servo_calls tail = []"
    using w' by (cases r) (simp_all add: trace_emit)
  then obtain tail where t: "trace (smooth_move servo target steps d w) = trace w @ new @ tail"
    "servo_calls tail = []" by blast
  have "since w (smooth_move servo target steps d w) = new @ tail"
    using t(1) by (simp add: since_def)
  then show ?thesis using Inr n(2) t(2) by (simp add: servo_calls_append)
qed

lemma smooth_move_link_open:
  "link_open (smooth_move servo target steps d w) = link_open w"
  by (auto simp: smooth_move_def Let_def link_open_emit split: sum.splits prod.splits option.splits)
     (metis smooth_loop_link_open snd_conv)+

lemma planned_length: "length (planned c q idx) \<le> length idx"
  by (induction idx) (auto split: sum.splits)

lemma planned_mem:
  "b \<in> set (planned c q idx) \<Longrightarrow> \<exists>j \<in> set idx. interpolate c q j = Inr b"
  by (induction idx) (auto split: sum.splits)

lemma planned_sorted:
  assumes "0 \<le> q" "sorted idx"
  shows "sorted (planned c q idx)"
  using assms(2)
proof (induction idx)
  case Nil
  show ?case by simp
next
  case (Cons i rest)
  show ?case
  proof (cases "interpolate c q i")
    case (Inl e)
    then show ?thesis by simp
  next
    case (Inr a)
    have "a \<le> b" if mem: "b \<in> set (planned c q rest)" for b
    proof -
      obtain j where j: "j \<in> set rest" "interpolate c q j = Inr b"
        using planned_mem [OF mem] by blast
      have "i \<le> j" using Cons.prems j(1) by simp
      then show ?thesis using interpolate_mono [OF assms(1) _ Inr j(2)] by simp
    qed
    then show ?thesis using Cons Inr by simp
  qed
qed

lemma planned_sorted_down:
  assumes "q \<le> 0" "sorted idx"
  shows "sorted_wrt (\<ge>) (planned c q idx)"
  using assms(2)
proof (induction idx)
  case Nil
  show ?case by simp
next
  case (Cons i rest)
  show ?case
  proof (cases "interpolate c q i")
    case (Inl e)
    then show ?thesis by simp
  next
    case (Inr a)
    have "b \<le> a" if mem: "b \<in> set (planned c q rest)" for b
    proof -
      obtain j where j: "j \<in> set rest" "interpolate c q j = Inr b"
        using planned_mem [OF mem] by blast
      have "i \<le> j" using Cons.prems j(1) by simp
      then show ?thesis using interpolate_antimono [OF assms(1) _ Inr j(2)] by simp
    qed
    then show ?thesis using Cons Inr by simp
  qed
qed

lemma planned_complete:
  assumes "\<forall>i \<in> set idx. \<exists>a. interpolate c q i = Inr a"
  shows "length (planned c q idx) = length idx
         \<and> (\<forall>n < length idx. interpolate c q (idx ! n) = Inr (planned c q idx ! n))"
  using assms
proof (induction idx)
  case Nil
  show ?case by simp
next
  case (Cons i rest)
  then obtain a where a: "interpolate c q i = Inr a" by auto
  have ih: "length (planned c q rest) = length rest"
    "\<forall>n < length rest. interpolate c q (rest ! n) = Inr (planned c q rest ! n)"
    using Cons by auto
  show ?case using a ih by (auto simp: nth_Cons split: nat.splits)
qed

lemma int_truediv_Inr:
  assumes "int_truediv a b = Inr q"
  shows "q = round_double (of_int a / of_int b)"
  using assms
  by (auto simp: int_truediv_def split: if_splits pyfloat.splits dest: to_double_Finite_eq)

lemma int_truediv_defined:
  assumes "\<bar>a\<bar> \<le> 2 ^ 500" "1 \<le> b"
  shows "int_truediv a b = Inr (round_double (of_int a / of_int b))
         \<and> \<bar>round_double (of_int a / of_int b)\<bar> \<le> 2 ^ 500"
proof -
  have "(of_int \<bar>a\<bar> :: rat) \<le> of_int (2 ^ 500)" using assms(1) by (simp only: of_int_le_iff)
  then have a: "\<bar>of_int a :: rat\<bar> \<le> 2 ^ 500" by simp
  have b: "(1::rat) \<le> of_int b" using assms(2) by simp
  have "\<bar>of_int a / of_int b :: rat\<bar> = \<bar>of_int a\<bar> / of_int b" using b by simp
  also have "\<dots> \<le> \<bar>of_int a\<bar> / 1" using b by (intro divide_left_mono) simp_all
  finally have q: "\<bar>of_int a / of_int b :: rat\<bar> \<le> 2 ^ 500" using a by simp
  have "to_double (of_int a / of_int b) = Finite (round_double (of_int a / of_int b))"
    using to_double_finite [OF q] by simp
  then show ?thesis using assms(2) round_double_bound [OF q] by (simp add: int_truediv_def)
qed

lemma rd_values:
  "round_double 1 = 1" "round_double 2 = 2" "round_double 4 = 4" "round_double 8 = 8"
  "round_double 90 = 90" "round_double 94 = 94" "round_double 98 = 98"
  by code_simp+

lemma to_double_small: "\<bar>x\<bar> \<le> 2 ^ 10 \<Longrightarrow> to_double x = Finite (round_double x)"
  by (rule to_double_finite [where n = 10]) simp_all

lemma float_trunc_of_int: "float_trunc (of_int n) = n"
  by (simp add: float_trunc_def)

lemma truediv_8_2: "int_truediv (98 - 90) 2 = Inr 4"
  by (simp add: int_truediv_def to_double_small rd_values)

lemma interpolate_90_4_0: "interpolate 90 4 0 = Inr 94"
  using float_trunc_of_int [of 94]
  by (simp add: interpolate_def int_to_float_def float_mul_def to_double_small rd_values)

lemma interpolate_90_4_1: "interpolate 90 4 1 = Inr 98"
  using float_trunc_of_int [of 98]
  by (simp add: interpolate_def int_to_float_def float_mul_def to_double_small rd_values)

section \<open>smooth\_move\<close>

text \<open>
  Claim C1, as amended. On an open link and for a step count \<open>N \<ge> 1\<close>, every call
  \<open>smooth_move\<close> makes of \<open>send_servo_command\<close> is for its actuator, there are at most \<open>N\<close>
  of them, and their angles are non-decreasing when the target is above the rest angle
  90 and non-increasing when it is below. When moreover \<open>|target - 90| \<le> 2 ^ 500\<close> and
  \<open>N \<le> 2 ^ 500\<close>, no float operation overflows: there are exactly \<open>N\<close> calls, and the
  angle of call \<open>i\<close> (counted from 0) is the value of
  \<^verbatim>\<open>int(90 + ((target - 90) / N) * (i + 1))\<close>.
\<close>

theorem smooth_move_interpolates:
  assumes "link_open w" "1 \<le> steps"
  shows "servo_calls (since w (smooth_move servo target steps delay w))
           = map (Pair servo) (angles (since w (smooth_move servo target steps delay w)))
       \<and> length (angles (since w (smooth_move servo target steps delay w))) \<le> nat steps
       \<and> (90 < target \<longrightarrow> sorted (angles (since w (smooth_move servo target steps delay w))))
       \<and> (target < 90 \<longrightarrow> sorted_wrt (\<ge>) (angles (since w (smooth_move servo target steps delay w))))
       \<and> (\<bar>target - 90\<bar> \<le> 2 ^ 500 \<and> steps \<le> 2 ^ 500 \<longrightarrow>
            length (angles (since w (smooth_move servo target steps delay w))) = nat steps
          \<and> (\<exists>step_size. int_truediv (target - 90) steps = Inr step_size
                \<and> (\<forall>i < nat steps. interpolate 90 step_size i
                       = Inr (angles (since w (smooth_move servo target steps delay w)) ! i))))"
proof -
  define A where "A = angles (since w (smooth_move servo target steps delay w))"
  define P where "P = (case int_truediv (target - 90) steps of
                         Inl e \<Rightarrow> [] | Inr q \<Rightarrow> planned 90 q [0..<nat steps])"
  have calls: "servo_calls (since w (smooth_move servo target steps delay w)) = map (Pair servo) P"
    unfolding P_def by (rule smooth_move_angles [OF assms(1)])
  then have A: "A = P" by (simp add: A_def angles_def comp_def)
  have c1: "servo_calls (since w (smooth_move servo target steps delay w)) = map (Pair servo) A"
    using calls A by simp
  have c2: "length A \<le> nat steps"
    unfolding A P_def using planned_length [of 90 _ "[0..<nat steps]"] by (simp split: sum.splits)
  have c3: "sorted A" if up: "90 < target"
  proof (cases "int_truediv (target - 90) steps")
    case (Inl e)
    then show ?thesis by (simp add: A P_def)
  next
    case (Inr q)
    have "(0::rat) \<le> of_int (target - 90) / of_int steps" using up assms(2) by simp
    then have "0 \<le> q" unfolding int_truediv_Inr [OF Inr] by (rule round_double_nonneg)
    then show ?thesis using Inr by (simp add: A P_def planned_sorted)
  qed
  have c4: "sorted_wrt (\<ge>) A" if down: "target < 90"
  proof (cases "int_truediv (target - 90) steps")
    case (Inl e)
    then show ?thesis by (simp add: A P_def)
  next
    case (Inr q)
    have "of_int (target - 90) / of_int steps \<le> (0::rat)"
      using down assms(2) by (simp add: divide_le_0_iff)
    then have "q \<le> 0" unfolding int_truediv_Inr [OF Inr] by (rule round_double_nonpos)
    then show ?thesis using Inr by (simp add: A P_def planned_sorted_down)
  qed
  have c5: "length A = nat steps
          \<and> (\<exists>step_size. int_truediv (target - 90) steps = Inr step_size
                \<and> (\<forall>i < nat steps. interpolate 90 step_size i = Inr (A ! i)))"
    if b: "\<bar>target - 90\<bar> \<le> 2 ^ 500 \<and> steps \<le> 2 ^ 500"
  proof -
    define q where "q = round_double (of_int (target - 90) / of_int steps)"
    have q: "int_truediv (target - 90) steps = Inr q" "\<bar>q\<bar> \<le> 2 ^ 500"
      using int_truediv_defined [of "target - 90" steps] b assms(2) by (simp_all add: q_def)
    have "\<exists>a. interpolate 90 q i = Inr a" if "i \<in> set [0..<nat steps]" for i
    proof (rule interpolate_defined [OF q(2)])
      show "int i + 1 \<le> 2 ^ 500" using that b by auto
      show "\<bar>90 :: int\<bar> \<le> 2 ^ 500"
      proof -
        have "(90::int) \<le> 2 ^ 7" by simp
        also have "\<dots> \<le> 2 ^ 500" by (intro power_increasing) simp_all
        finally show ?thesis by simp
      qed
    qed
    then have "\<forall>i \<in> set [0..<nat steps]. \<exists>a. interpolate 90 q i = Inr a" by blast
    from planned_complete [OF this] have
      "length (planned 90 q [0..<nat steps]) = nat steps"
      "\<forall>n < nat steps. interpolate 90 q n = Inr (planned 90 q [0..<nat steps] ! n)"
      by auto
    then show ?thesis using q(1) by (auto simp: A P_def)
  qed
  from c1 c2 c3 c4 c5 show ?thesis unfolding A_def by blast
qed

theorem smooth_move_interpolates_witness:
  "link_open quiet_link \<and> (1::int) \<le> 2 \<and> \<bar>98 - 90 :: int\<bar> \<le> 2 ^ 500 \<and> (2::int) \<le> 2 ^ 500
   \<and> angles (since quiet_link (smooth_move ''head'' 98 2 20 quiet_link)) = [94, 98]
   \<and> sorted [94, 98 :: int]"
proof -
  define A where "A = angles (since quiet_link (smooth_move ''head'' 98 2 20 quiet_link))"
  have o: "link_open quiet_link" by (simp add: link_open_def quiet_link_def)
  have b1: "\<bar>98 - 90 :: int\<bar> \<le> 2 ^ 500"
  proof -
    have "\<bar>98 - 90 :: int\<bar> \<le> 2 ^ 3" by simp
    also have "\<dots> \<le> 2 ^ 500" by (intro power_increasing) simp_all
    finally show ?thesis .
  qed
  have b2: "(2::int) \<le> 2 ^ 500"
    using power_increasing [of 1 500 "2::int"] by simp
  have d: "int_truediv (98 - 90) 2 = Inr 4"
    by (simp add: int_truediv_def to_double_small rd_values)
  have i0: "interpolate 90 4 0 = Inr 94"
    using float_trunc_of_int [of 94] by (simp add: interpolate_def int_to_float_def float_mul_def to_double_small rd_values)
  have i1: "interpolate 90 4 1 = Inr 98"
    using float_trunc_of_int [of 98] by (simp add: interpolate_def int_to_float_def float_mul_def to_double_small rd_values)
  from smooth_move_interpolates [OF o, of 2 "''head''" 98 20] b1 b2
  have "length A = 2" "\<exists>q. int_truediv (98 - 90) 2 = Inr q \<and> (\<forall>i < 2. interpolate 90 q i = Inr (A ! i))"
    unfolding A_def by simp_all
  then have l: "length A = 2" and n: "\<forall>i < 2. interpolate 90 4 i = Inr (A ! i)"
    using d by auto
  have "A ! 0 = 94" using n i0 by auto
  moreover have "A ! 1 = 98" using n i1 by auto
  ultimately have "A = [94, 98]" using l by (auto simp: list_eq_iff_nth_eq less_Suc_eq numeral_2_eq_2)
  then show ?thesis using o b1 b2 unfolding A_def by simp
qed

text \<open>
  Without the bound the count fails: for the target \<open>2 ^ 1024 + 90\<close> and one step the
  division \<^verbatim>\<open>(target_angle - current_pos) / steps\<close> raises \<open>OverflowError\<close>, the
  \<^verbatim>\<open>except\<close> clause prints, and no call is made.
\<close>

theorem smooth_move_overflow_counterexample:
  "link_open quiet_link \<and> (1::int) \<le> 1
   \<and> length (angles (since quiet_link (smooth_move ''head'' (2 ^ 1024 + 90) 1 20 quiet_link))) \<noteq> 1"
proof -
  have o: "link_open quiet_link" by (simp add: link_open_def quiet_link_def)
  have "overflow_threshold \<le> of_int (2 ^ 1024 + 90 - 90) / of_int 1"
    by (simp add: overflow_threshold_def)
  then have "int_truediv (2 ^ 1024 + 90 - 90) 1 = Inl OverflowError"
    using to_double_overflow by (simp add: int_truediv_def)
  then have "smooth_move ''head'' (2 ^ 1024 + 90) 1 20 quiet_link = emit (Print SmoothMoveFailed) quiet_link"
    using o by (simp add: smooth_move_def rest_lookup)
  then show ?thesis using o by (simp add: since_def trace_emit angles_def)
qed

section \<open>A link that is not open\<close>

text \<open>
  Claim C4. When the link is not open (no serial object, or a closed one), both
  \<open>send_servo_command\<close> functions return \<open>False\<close> and change nothing but the trace entry for
  the call itself: nothing is written, read or printed. \<open>smooth_move\<close> returns the state
  unchanged: no call of \<open>send_servo_command\<close>, no diagnostic.
\<close>

theorem closed_link_is_noop:
  assumes "\<not> link_open w"
  shows "api_send_servo_command pin angle w = (False, emit (SendPin pin angle) w)
       \<and> voice_send_servo_command servo angle w = (False, emit (SendServo servo angle) w)
       \<and> wire (snd (api_send_servo_command pin angle w)) = wire w
       \<and> wire (snd (voice_send_servo_command servo angle w)) = wire w
       \<and> smooth_move servo target steps delay w = w
       \<and> servo_calls (since w (smooth_move servo target steps delay w)) = []"
  using assms
  by (auto simp: api_send_servo_command_def voice_send_servo_command_def smooth_move_def
      link_open_def Let_def emit_def wire_def since_def split: option.splits)

theorem closed_link_is_noop_witness:
  "\<not> link_open no_link \<and> \<not> link_open closed_link
   \<and> api_send_servo_command 4 170 no_link = (False, \<lparr>arduino = None, trace = [SendPin 4 170]\<rparr>)
   \<and> fst (voice_send_servo_command ''left_arm'' 170 closed_link) = False
   \<and> wire (snd (voice_send_servo_command ''left_arm'' 170 closed_link)) = []
   \<and> smooth_move ''head'' 105 5 20 closed_link = closed_link
   \<and> smooth_move ''head'' 105 5 20 no_link = no_link"
proof -
  have n: "\<not> link_open no_link" by (simp add: link_open_def no_link_def)
  have c: "\<not> link_open closed_link" by (simp add: link_open_def closed_link_def)
  from closed_link_is_noop [OF n, of 4 170 "''head''" 105 5 20]
       closed_link_is_noop [OF c, of 4 170 "''left_arm''" 105 5 20]
       closed_link_is_noop [OF c, of 4 170 "''head''" 105 5 20] n c
  show ?thesis
    by (simp add: emit_def no_link_def closed_link_def wire_def)
qed

section \<open>The start angle of smooth\_move\<close>

text \<open>
  Claim C10. \<open>SERVO_REST\<close> is a constant of the program and holds 90 for every actuator
  (as does the default of the lookup), and no state records a commanded angle. So on an
  open link the angles \<open>smooth_move\<close> commands are computed from 90, the target and the
  step count alone, and a \<open>smooth_move\<close> that follows another one commands the same
  angles as it would have from the initial state.
\<close>

theorem smooth_move_starts_from_rest:
  assumes "link_open w"
  shows "angles (since w (smooth_move servo target steps delay w))
           = (case int_truediv (target - 90) steps of
                Inl e \<Rightarrow> [] | Inr step_size \<Rightarrow> planned 90 step_size [0..<nat steps])
       \<and> angles (since (smooth_move servo0 target0 steps0 delay0 w)
                  (smooth_move servo target steps delay (smooth_move servo0 target0 steps0 delay0 w)))
           = angles (since w (smooth_move servo target steps delay w))"
proof -
  have a: "angles (since v (smooth_move servo target steps delay v))
           = (case int_truediv (target - 90) steps of
                Inl e \<Rightarrow> [] | Inr step_size \<Rightarrow> planned 90 step_size [0..<nat steps])"
    if "link_open v" for v
    using smooth_move_angles [OF that, of servo target steps delay]
    by (simp add: angles_def comp_def)
  have "link_open (smooth_move servo0 target0 steps0 delay0 w)"
    using assms by (simp add: smooth_move_link_open)
  from a [OF this] a [OF assms] show ?thesis by simp
qed

theorem smooth_move_starts_from_rest_witness:
  "link_open quiet_link
   \<and> angles (since (smooth_move ''head'' 170 5 20 quiet_link)
               (smooth_move ''head'' 98 2 20 (smooth_move ''head'' 170 5 20 quiet_link)))
       = [94, 98]"
proof -
  have o: "link_open quiet_link" by (simp add: link_open_def quiet_link_def)
  have "planned 90 4 [0..<nat 2] = [94, 98]"
    by (simp add: upt_rec interpolate_90_4_0 interpolate_90_4_1 [unfolded One_nat_def] numeral_2_eq_2)
  then show ?thesis
    using smooth_move_starts_from_rest [OF o, of "''head''" 98 2 20 "''head''" 170 5 20] o truediv_8_2
    by simp
qed

end
